theory Spec2Isabelle
  imports Main "HOL-Library.Multiset"
begin

section \<open>Errors and results\<close>

text \<open>
  Every exception of \<^verbatim>\<open>pyscad.py\<close> is a value. \<open>AssertionError\<close> is a failed
  \<^verbatim>\<open>assert\<close>, \<open>ValueError\<close> the failed destructuring \<^verbatim>\<open>first, *rest = nodes\<close> of an
  empty sequence, \<open>KeyError\<close> a missing dictionary key, \<open>TypeError\<close> an operator applied
  to operands it does not support, \<open>Exception msg\<close> the two \<^verbatim>\<open>raise Exception(msg)\<close> of
  \<^verbatim>\<open>compile_scad\<close>, and \<open>RecursionError\<close> the exhaustion of the recursion depth given
  to the renderer.
\<close>

datatype error =
    AssertionError
  | ValueError
  | KeyError
  | TypeError
  | RecursionError
  | Exception string

definition rbind :: "error + 'a \<Rightarrow> ('a \<Rightarrow> error + 'b) \<Rightarrow> error + 'b" where
  "rbind m f = (case m of Inl e \<Rightarrow> Inl e | Inr x \<Rightarrow> f x)"

text \<open>Evaluating a sequence of computations left to right; the first exception wins.\<close>

fun sequence :: "(error + 'a) list \<Rightarrow> error + 'a list" where
  "sequence [] = Inr []"
| "sequence (m # ms) = rbind m (\<lambda>x. rbind (sequence ms) (\<lambda>xs. Inr (x # xs)))"

section \<open>Text helpers\<close>

fun join :: "string \<Rightarrow> string list \<Rightarrow> string" where
  "join sep [] = []"
| "join sep [x] = x"
| "join sep (x # y # zs) = x @ sep @ join sep (y # zs)"

text \<open>\<^verbatim>\<open>_str_call(function, *args)\<close> on arguments that are already rendered.\<close>

definition str_call :: "string \<Rightarrow> string list \<Rightarrow> string" where
  "str_call function args = function @ ''('' @ join '', '' args @ '')''"

definition digit :: "nat \<Rightarrow> char" where
  "digit d = char_of (48 + d)"

text \<open>Python's \<^verbatim>\<open>'{}'.format(n)\<close> for a natural number: its decimal digits.\<close>

fun str_nat :: "nat \<Rightarrow> string" where
  "str_nat n = (if n < 10 then [digit n] else str_nat (n div 10) @ [digit (n mod 10)])"

declare str_nat.simps [simp del]

section \<open>Nodes\<close>

datatype node =
    PrimitiveNode string
  | CompositeNode string "node list"

fun child_nodes :: "node \<Rightarrow> node list" where
  "child_nodes (PrimitiveNode text) = []"
| "child_nodes (CompositeNode text nodes) = nodes"

text \<open>
  The datatype \<open>node\<close> is a node up to \<^verbatim>\<open>Node.__eq__\<close>: the sets and the dictionary of
  \<^verbatim>\<open>compile_scad\<close> are keyed by nodes and so identify the node objects that compare
  equal. The node objects themselves are \<open>obj\<close>: a node object has an identity (the
  number stands for Python's \<^verbatim>\<open>id\<close>), a text and, when it is composite, its child
  objects; two objects built by two calls are different objects, whatever they hold.
  \<open>structure_of\<close> forgets the identities.
\<close>

datatype obj =
    PrimitiveObj nat string
  | CompositeObj nat string "obj list"

fun structure_of :: "obj \<Rightarrow> node" where
  "structure_of (PrimitiveObj i t) = PrimitiveNode t"
| "structure_of (CompositeObj i t ns) = CompositeNode t (map structure_of ns)"

text \<open>
  \<^verbatim>\<open>Node.__eq__\<close> compares \<^verbatim>\<open>_compare_key\<close>: the text of a primitive node (a string), the
  pair of text and child tuple of a composite node. A string never equals a tuple, and two
  tuples are equal when they have the same length and their elements are pairwise equal,
  which compares the child nodes with \<^verbatim>\<open>Node.__eq__\<close> again.
\<close>

fun Node_eq :: "obj \<Rightarrow> obj \<Rightarrow> bool" where
  "Node_eq (PrimitiveObj i t) (PrimitiveObj j u) = (t = u)"
| "Node_eq (CompositeObj i t ns) (CompositeObj j u ms) = (t = u \<and> list_all2 Node_eq ns ms)"
| "Node_eq (PrimitiveObj i t) (CompositeObj j u ms) = False"
| "Node_eq (CompositeObj i t ns) (PrimitiveObj j u) = False"

text \<open>
  \<^verbatim>\<open>Node.__hash__\<close> hashes the compare key. The hash of a string and the way a tuple
  combines the hashes of its elements are Python's; they are parameters here.
\<close>

fun Node_hash :: "(string \<Rightarrow> int) \<Rightarrow> (int list \<Rightarrow> int) \<Rightarrow> obj \<Rightarrow> int" where
  "Node_hash hs ht (PrimitiveObj i t) = hs t"
| "Node_hash hs ht (CompositeObj i t ns) = ht [hs t, ht (map (Node_hash hs ht) ns)]"

definition Node_compose :: "string \<Rightarrow> node list \<Rightarrow> node" where
  "Node_compose text nodes = CompositeNode text nodes"

definition Node_create :: "string \<Rightarrow> node" where
  "Node_create text = PrimitiveNode text"

definition Node_intersect :: "node list \<Rightarrow> error + node" where
  "Node_intersect nodes =
     (case nodes of
        [] \<Rightarrow> Inl ValueError
      | first # rest \<Rightarrow>
          if rest \<noteq> [] then Inr (Node_compose (str_call ''intersection'' []) nodes)
          else Inr first)"

definition Node_union :: "node list \<Rightarrow> error + node" where
  "Node_union nodes =
     (case nodes of
        [] \<Rightarrow> Inl ValueError
      | first # rest \<Rightarrow>
          if rest \<noteq> [] then Inr (Node_compose (str_call ''union'' []) nodes)
          else Inr first)"

definition Node_minus :: "node \<Rightarrow> node \<Rightarrow> node" where
  "Node_minus left right = Node_compose (str_call ''difference'' []) [left, right]"

section \<open>Selections\<close>

text \<open>
  The three classes of selections. \<open>void\<close> and \<open>inverted\<close> are the truth values of the
  attributes of the same name: every use in the source is a condition
  (\<^verbatim>\<open>if i.void\<close>, \<^verbatim>\<open>if selection.inverted\<close>, \<^verbatim>\<open>not self._selection.inverted\<close>). On
  the singleton \<^verbatim>\<open>void_selection\<close> the attribute \<^verbatim>\<open>void\<close> is a method without
  \<^verbatim>\<open>@property\<close>, so its value is a bound method, which is true in a condition, and
  \<^verbatim>\<open>InvertedSelection.void\<close> passes that value on. The singleton has no node: its
  \<^verbatim>\<open>node\<close> is likewise a method without \<^verbatim>\<open>@property\<close>, whose body is
  \<^verbatim>\<open>assert False\<close>, so reading the attribute raises nothing and gives a bound method,
  which is not a node. \<open>node_of\<close> is the node read from the attribute; where there is
  none, on the void selection and its inversions, its value is \<open>Inl AssertionError\<close>, the
  outcome of calling that method. The source reads the attribute in
  \<^verbatim>\<open>Selection.transform\<close>, \<^verbatim>\<open>Selection.intersect\<close> and \<^verbatim>\<open>compile_scad\<close>, each time
  after it has found the selection not to be void, so that no result of the model
  depends on this value (lemma \<open>node_read_when_not_void\<close>).
\<close>

datatype selection =
    void_selection
  | NodeSelection node
  | InvertedSelection selection

fun void :: "selection \<Rightarrow> bool" where
  "void void_selection = True"
| "void (NodeSelection n) = False"
| "void (InvertedSelection s) = void s"

fun inverted :: "selection \<Rightarrow> bool" where
  "inverted void_selection = False"
| "inverted (NodeSelection n) = False"
| "inverted (InvertedSelection s) = (\<not> inverted s)"

fun node_of :: "selection \<Rightarrow> error + node" where
  "node_of void_selection = Inl AssertionError"
| "node_of (NodeSelection n) = Inr n"
| "node_of (InvertedSelection s) = node_of s"

definition Selection_invert :: "selection \<Rightarrow> selection" where
  "Selection_invert selection = InvertedSelection selection"

definition Selection_create :: "node \<Rightarrow> selection" where
  "Selection_create n = NodeSelection n"

definition Selection_transform :: "string \<Rightarrow> selection \<Rightarrow> error + selection" where
  "Selection_transform text selection =
     (if void selection then Inr selection
      else rbind (node_of selection) (\<lambda>n.
        let transformed_selection = NodeSelection (Node_compose text [n])
        in if inverted selection then Inr (InvertedSelection transformed_selection)
           else Inr transformed_selection))"

text \<open>
  The loop of \<^verbatim>\<open>Selection.intersect\<close> with its two accumulators. \<open>Inr None\<close> is the
  early \<^verbatim>\<open>return void_selection\<close> inside the loop.
\<close>

fun intersect_loop ::
  "selection list \<Rightarrow> node list \<Rightarrow> node list \<Rightarrow> error + (node list \<times> node list) option" where
  "intersect_loop [] inverted_nodes nodes = Inr (Some (inverted_nodes, nodes))"
| "intersect_loop (i # rest) inverted_nodes nodes =
     (if inverted i then
        (if \<not> void i then
           rbind (node_of i) (\<lambda>n. intersect_loop rest (inverted_nodes @ [n]) nodes)
         else intersect_loop rest inverted_nodes nodes)
      else
        (if void i then Inr None
         else rbind (node_of i) (\<lambda>n. intersect_loop rest inverted_nodes (nodes @ [n]))))"

definition Selection_intersect :: "selection list \<Rightarrow> error + selection" where
  "Selection_intersect selections =
     rbind (intersect_loop selections [] []) (\<lambda>r.
       case r of
         None \<Rightarrow> Inr void_selection
       | Some (inverted_nodes, nodes) \<Rightarrow>
           if inverted_nodes \<noteq> [] then
             (if nodes \<noteq> [] then
                rbind (Node_intersect nodes) (\<lambda>a.
                  rbind (Node_union inverted_nodes) (\<lambda>b.
                    Inr (Selection_create (Node_minus a b))))
              else
                rbind (Node_union inverted_nodes) (\<lambda>b.
                  Inr (Selection_invert (Selection_create b))))
           else
             (if nodes \<noteq> [] then
                rbind (Node_intersect nodes) (\<lambda>a. Inr (Selection_create a))
              else Inr void_selection))"

definition Selection_union :: "selection list \<Rightarrow> error + selection" where
  "Selection_union selections =
     rbind (Selection_intersect (map Selection_invert selections)) (\<lambda>s.
       Inr (Selection_invert s))"

section \<open>Objects\<close>

text \<open>
  An object is the dictionary \<^verbatim>\<open>_selections\<close> from selectors to selections. The
  dictionary is kept as an association list in insertion order, which is the order in
  which Python iterates over it.
\<close>

datatype 'k object = Object (selections: "('k \<times> selection) list")

text \<open>
  An operand of the object arithmetic is an object or some other Python value;
  \<^verbatim>\<open>isinstance(i, Object)\<close> is \<open>is_Obj\<close>.
\<close>

datatype 'k pyval = is_Obj: Obj (the_Obj: "'k object") | Other

definition get_selection :: "'k object \<Rightarrow> 'k \<Rightarrow> selection" where
  "get_selection obj selector =
     (case map_of (selections obj) selector of None \<Rightarrow> void_selection | Some s \<Rightarrow> s)"

definition selectors :: "'k object \<Rightarrow> 'k list" where
  "selectors obj = map fst (selections obj)"

text \<open>
  \<^verbatim>\<open>_tally\<close>: a dictionary from the first components to the lists of the second
  components, keys in the order of their first appearance.
\<close>

fun tally_add :: "'k \<Rightarrow> 'v \<Rightarrow> ('k \<times> 'v list) list \<Rightarrow> ('k \<times> 'v list) list" where
  "tally_add k v [] = [(k, [v])]"
| "tally_add k v ((k', vs) # res) =
     (if k = k' then (k', vs @ [v]) # res else (k', vs) # tally_add k v res)"

definition tally :: "('k \<times> 'v) list \<Rightarrow> ('k \<times> 'v list) list" where
  "tally tuples = fold (\<lambda>(k, v) res. tally_add k v res) tuples []"

text \<open>\<^verbatim>\<open>itertools.product\<close>: the rightmost factor advances fastest.\<close>

fun product :: "'a list list \<Rightarrow> 'a list list" where
  "product [] = [[]]"
| "product (xs # xss) = concat (map (\<lambda>x. map (\<lambda>ys. x # ys) (product xss)) xs)"

definition iter_selections ::
  "('k list \<Rightarrow> error + 'r) \<Rightarrow> 'k object list \<Rightarrow> error + ('r \<times> selection list) list" where
  "iter_selections operation objects =
     sequence (map (\<lambda>sels.
         rbind (operation sels) (\<lambda>selector.
           Inr (selector, map (\<lambda>(ob, s). get_selection ob s) (zip objects sels))))
       (product (map selectors objects)))"

definition combine :: "selection list list \<Rightarrow> error + selection" where
  "combine groups = rbind (sequence (map Selection_intersect groups)) Selection_union"

definition inverse_groups_of ::
  "('r \<times> selection list list) list \<Rightarrow> 'r \<Rightarrow> selection list list" where
  "inverse_groups_of groups_by_selector selector =
     concat (map snd (filter (\<lambda>(s, g). s \<noteq> selector) groups_by_selector))"

definition compute_selection ::
  "('r \<times> selection list list) list \<Rightarrow> 'r \<Rightarrow> error + selection" where
  "compute_selection groups_by_selector selector =
     (case map_of groups_by_selector selector of
        None \<Rightarrow> Inl KeyError
      | Some groups \<Rightarrow>
          let inverse_groups = inverse_groups_of groups_by_selector selector
          in if length groups > length inverse_groups then
               rbind (combine inverse_groups) (\<lambda>c. Inr (Selection_invert c))
             else combine groups)"

text \<open>
  \<^verbatim>\<open>Object.compose\<close>. The operation is a function here, so \<^verbatim>\<open>assert callable(operation)\<close>
  holds; the second assertion is the first branch. The generator \<^verbatim>\<open>iter_selections\<close> is
  consumed completely by \<^verbatim>\<open>_tally\<close>, and an exception of the operation ends the
  composition.
\<close>

definition Object_compose ::
  "('k list \<Rightarrow> error + 'r) \<Rightarrow> 'k pyval list \<Rightarrow> error + 'r object" where
  "Object_compose operation objects =
     (if \<not> list_all is_Obj objects then Inl AssertionError
      else
        rbind (iter_selections operation (map the_Obj objects)) (\<lambda>tuples.
          let groups_by_selector = tally tuples
          in rbind (sequence (map (\<lambda>i. rbind (compute_selection groups_by_selector i)
                                           (\<lambda>v. Inr (i, v)))
                              (map fst groups_by_selector)))
               (\<lambda>items. Inr (Object items))))"

section \<open>Selectors\<close>

datatype selector = true_selector | false_selector

fun selector_bool :: "selector \<Rightarrow> bool" where
  "selector_bool true_selector = True"
| "selector_bool false_selector = False"

fun selector_add :: "selector \<Rightarrow> selector \<Rightarrow> selector" where
  "selector_add true_selector other = true_selector"
| "selector_add false_selector other = other"

fun selector_mul :: "selector \<Rightarrow> selector \<Rightarrow> selector" where
  "selector_mul true_selector other = other"
| "selector_mul false_selector other = false_selector"

fun selector_neg :: "selector \<Rightarrow> selector" where
  "selector_neg true_selector = false_selector"
| "selector_neg false_selector = true_selector"

definition selector_sub :: "selector \<Rightarrow> selector \<Rightarrow> selector" where
  "selector_sub self other = selector_mul self (selector_neg other)"

text \<open>
  The functions of Python's \<^verbatim>\<open>operator\<close> module, applied to the tuple of selectors of
  one combination; a call with the wrong number of arguments is a \<^verbatim>\<open>TypeError\<close>.
\<close>

fun operator_add :: "selector list \<Rightarrow> error + selector" where
  "operator_add [a, b] = Inr (selector_add a b)"
| "operator_add _ = Inl TypeError"

fun operator_mul :: "selector list \<Rightarrow> error + selector" where
  "operator_mul [a, b] = Inr (selector_mul a b)"
| "operator_mul _ = Inl TypeError"

fun operator_sub :: "selector list \<Rightarrow> error + selector" where
  "operator_sub [a, b] = Inr (selector_sub a b)"
| "operator_sub _ = Inl TypeError"

fun operator_neg :: "selector list \<Rightarrow> error + selector" where
  "operator_neg [a] = Inr (selector_neg a)"
| "operator_neg _ = Inl TypeError"

definition Object_add :: "selector object \<Rightarrow> selector pyval \<Rightarrow> error + selector object" where
  "Object_add self other = Object_compose operator_add [Obj self, other]"

definition Object_mul :: "selector object \<Rightarrow> selector pyval \<Rightarrow> error + selector object" where
  "Object_mul self other = Object_compose operator_mul [Obj self, other]"

definition Object_neg :: "selector object \<Rightarrow> error + selector object" where
  "Object_neg self = Object_compose operator_neg [Obj self]"

definition Object_sub :: "selector object \<Rightarrow> selector pyval \<Rightarrow> error + selector object" where
  "Object_sub self other = Object_compose operator_sub [Obj self, other]"

definition Object_create :: "selection \<Rightarrow> selector object" where
  "Object_create selection =
     Object [(true_selector, selection), (false_selector, Selection_invert selection)]"

section \<open>The compiler\<close>

text \<open>
  The three collections that \<^verbatim>\<open>walk_nodes\<close> updates: the set of all nodes seen, the list
  of nodes in the order in which their visit completed, and the set of nodes met again.
\<close>

record walk_state =
  nodes_set :: "node set"
  nodes_list :: "node list"
  reused_nodes :: "node set"

lemma size_child_nodes: "x \<in> set (child_nodes n) \<Longrightarrow> size x < size n"
  by (cases n) (auto simp: less_Suc_eq_le size_list_estimation')

function walk_nodes :: "node \<Rightarrow> walk_state \<Rightarrow> walk_state" where
  "walk_nodes n s =
     (if n \<in> nodes_set s then s\<lparr>reused_nodes := insert n (reused_nodes s)\<rparr>
      else
        let s1 = s\<lparr>nodes_set := insert n (nodes_set s)\<rparr>;
            s2 = fold walk_nodes (child_nodes n) s1
        in s2\<lparr>nodes_list := nodes_list s2 @ [n]\<rparr>)"
  by pat_completeness auto
termination
  by (relation "measure (\<lambda>(n, s). size n)") (auto simp: size_child_nodes)

declare walk_nodes.simps [simp del]

definition walk_root :: "node \<Rightarrow> walk_state" where
  "walk_root root_node =
     walk_nodes root_node \<lparr>nodes_set = {}, nodes_list = [], reused_nodes = {}\<rparr>"

datatype scad_module = Module (m_name: string) (m_node: node)

definition reference :: "scad_module \<Rightarrow> node" where
  "reference m = Node_create (str_call (m_name m) [])"

text \<open>
  One round of the loop over \<^verbatim>\<open>reversed(nodes_list)\<close>, on the dictionary
  \<^verbatim>\<open>node_replacements\<close> and the list \<^verbatim>\<open>modules\<close>.
\<close>

definition replace_node ::
  "node set \<Rightarrow> node \<Rightarrow> (node \<rightharpoonup> node) \<times> scad_module list
     \<Rightarrow> (node \<rightharpoonup> node) \<times> scad_module list" where
  "replace_node reused i st =
     (case st of (node_replacements, modules) \<Rightarrow>
        if i \<in> reused then
          let m = Module (''node_'' @ str_nat (length modules + 1)) i
          in (node_replacements(i \<mapsto> reference m), modules @ [m])
        else (node_replacements(i \<mapsto> i), modules))"

definition assign_modules :: "walk_state \<Rightarrow> (node \<rightharpoonup> node) \<times> scad_module list" where
  "assign_modules s =
     fold (replace_node (reused_nodes s)) (rev (nodes_list s)) (Map.empty, [])"

definition indent :: "string list \<Rightarrow> string list" where
  "indent ls = map (\<lambda>j. CHR 0x09 # j) ls"

text \<open>
  \<^verbatim>\<open>iter_lines\<close> of the two node classes. A composite node renders the replacement of each
  child, so the recursion is not on the structure of the node; the first argument bounds
  the depth of the recursion, and running out of it is \<open>RecursionError\<close>. The lines of
  the generator are collected in a list; an exception raised while the generator runs is
  the result.
\<close>

fun iter_lines :: "nat \<Rightarrow> (node \<rightharpoonup> node) \<Rightarrow> node \<Rightarrow> error + string list" where
  "iter_lines depth node_replacements (PrimitiveNode text) = Inr [text @ '';'']"
| "iter_lines 0 node_replacements (CompositeNode text nodes) = Inl RecursionError"
| "iter_lines (Suc depth) node_replacements (CompositeNode text nodes) =
     (let iter_node_lines = (\<lambda>i.
            case node_replacements i of
              None \<Rightarrow> Inl KeyError
            | Some r \<Rightarrow> rbind (iter_lines depth node_replacements r) (\<lambda>ls. Inr (indent ls)))
      in case nodes of
           [] \<Rightarrow> Inl ValueError
         | first # rest \<Rightarrow>
             if rest \<noteq> [] then
               rbind (sequence (map iter_node_lines nodes)) (\<lambda>body.
                 Inr ([text @ '' {''] @ concat body @ [''}'']))
             else
               rbind (iter_node_lines first) (\<lambda>body. Inr (text # body)))"

definition Module_iter_lines ::
  "nat \<Rightarrow> (node \<rightharpoonup> node) \<Rightarrow> scad_module \<Rightarrow> error + string list" where
  "Module_iter_lines depth node_replacements m =
     rbind (iter_lines depth node_replacements (m_node m)) (\<lambda>ls.
       Inr ((''module '' @ m_name m @ ''()'') # indent ls))"

text \<open>The part of \<^verbatim>\<open>compile_scad\<close> from \<^verbatim>\<open>root_node = selection.node\<close> on.\<close>

definition compile_node :: "nat \<Rightarrow> node \<Rightarrow> error + string list" where
  "compile_node depth root_node =
     (let s = walk_root root_node;
          (node_replacements, modules) = assign_modules s
      in rbind (iter_lines depth node_replacements root_node) (\<lambda>root_lines.
           rbind (sequence (map (\<lambda>m.
                    rbind (Module_iter_lines depth node_replacements m) (\<lambda>ls. Inr ([] # ls)))
                  modules)) (\<lambda>module_lines.
             Inr (root_lines @ concat module_lines))))"

fun operator_bool :: "selector list \<Rightarrow> error + bool" where
  "operator_bool [x] = Inr (selector_bool x)"
| "operator_bool _ = Inl TypeError"

text \<open>The selection that \<^verbatim>\<open>compile_scad\<close> renders: the part of the object that is truthy.\<close>

definition root_selection :: "selector pyval \<Rightarrow> error + selection" where
  "root_selection object =
     rbind (Object_compose operator_bool [object]) (\<lambda>composed.
       Inr (get_selection composed True))"

definition compile_scad :: "nat \<Rightarrow> selector pyval \<Rightarrow> error + string list" where
  "compile_scad depth object =
     rbind (root_selection object) (\<lambda>selection.
       if inverted selection then Inl (Exception ''The top-level node is inverted.'')
       else if void selection then Inl (Exception ''The top-level node is void.'')
       else rbind (node_of selection) (\<lambda>root_node. compile_node depth root_node))"

section \<open>Measures used to state the properties\<close>

text \<open>The number of \<^verbatim>\<open>InvertedSelection\<close> objects wrapped around a selection.\<close>

fun wrappers :: "selection \<Rightarrow> nat" where
  "wrappers void_selection = 0"
| "wrappers (NodeSelection n) = 0"
| "wrappers (InvertedSelection s) = Suc (wrappers s)"

text \<open>A node together with all the nodes below it.\<close>

fun subnodes :: "node \<Rightarrow> node set" where
  "subnodes (PrimitiveNode t) = {PrimitiveNode t}"
| "subnodes (CompositeNode t ns) = insert (CompositeNode t ns) (\<Union> (subnodes ` set ns))"

text \<open>
  The node at every branch below a node, in the order of the walk: a structure that
  stands at several places is listed once for each of them.
\<close>

fun all_nodes :: "node \<Rightarrow> node list" where
  "all_nodes (PrimitiveNode t) = [PrimitiveNode t]"
| "all_nodes (CompositeNode t ns) = CompositeNode t ns # concat (map all_nodes ns)"

text \<open>
  The nodes of the graph below a root, each structure once, and the number of edges of
  that graph that end in a node \<open>x\<close>: the number of child positions, over all distinct
  nodes, that hold a node equal to \<open>x\<close>.
\<close>

definition dag_nodes :: "node \<Rightarrow> node list" where
  "dag_nodes r = remdups (all_nodes r)"

definition occurrences :: "node \<Rightarrow> node \<Rightarrow> nat" where
  "occurrences r x = count_list (concat (map child_nodes (dag_nodes r))) x"

text \<open>A node is well formed when every composite node below it has a child.\<close>

fun wf_node :: "node \<Rightarrow> bool" where
  "wf_node (PrimitiveNode t) = True"
| "wf_node (CompositeNode t ns) = (ns \<noteq> [] \<and> list_all wf_node ns)"

fun height :: "node \<Rightarrow> nat" where
  "height (PrimitiveNode t) = 0"
| "height (CompositeNode t ns) = Suc (fold max (map height ns) 0)"

text \<open>
  The module calls that the rendering of a node contains, given the set of nodes that
  have a module: a child with a module is rendered as a call, any other child is rendered
  in place, with the calls of its own rendering.
\<close>

fun module_calls :: "node set \<Rightarrow> node \<Rightarrow> node list" where
  "module_calls R (PrimitiveNode t) = []"
| "module_calls R (CompositeNode t ns) =
     concat (map (\<lambda>i. if i \<in> R then [i] else module_calls R i) ns)"

text \<open>
  Invariants of the walk. A list is in post-order when everything below one of its
  elements stands before that element. The pending nodes are those whose visit has begun
  and not completed.
\<close>

definition postorder :: "node list \<Rightarrow> bool" where
  "postorder l = (\<forall>xs x ys. l = xs @ x # ys \<longrightarrow> subnodes x \<subseteq> insert x (set xs))"

definition walk_inv :: "walk_state \<Rightarrow> bool" where
  "walk_inv s = (set (nodes_list s) \<subseteq> nodes_set s \<and> distinct (nodes_list s)
     \<and> postorder (nodes_list s))"

definition pending :: "walk_state \<Rightarrow> node set" where
  "pending s = nodes_set s - set (nodes_list s)"

definition walk_post :: "node set \<Rightarrow> walk_state \<Rightarrow> walk_state \<Rightarrow> bool" where
  "walk_post new s s' = (walk_inv s' \<and> pending s' = pending s
     \<and> set (nodes_list s') = set (nodes_list s) \<union> new
     \<and> (\<exists>ys. nodes_list s' = nodes_list s @ ys))"

text \<open>
  The multiset \<open>M\<close> of all calls of \<^verbatim>\<open>walk_nodes\<close> so far determines the set of nodes
  seen and the set of nodes met again.
\<close>

definition count_inv :: "walk_state \<Rightarrow> node multiset \<Rightarrow> bool" where
  "count_inv s M = (nodes_set s = set_mset M \<and> reused_nodes s = {x. 2 \<le> count M x})"

definition count_post ::
  "node multiset \<Rightarrow> walk_state \<Rightarrow> node multiset \<Rightarrow> walk_state \<Rightarrow> bool" where
  "count_post C s M s' = (\<exists>ys. nodes_list s' = nodes_list s @ ys
      \<and> count_inv s' (M + C + mset (concat (map child_nodes ys))))"

text \<open>The modules for a list of nodes, numbered from \<open>k + 1\<close>.\<close>

definition numbered :: "nat \<Rightarrow> node list \<Rightarrow> scad_module list" where
  "numbered k xs = map (\<lambda>(i, x). Module (''node_'' @ str_nat (i + 1)) x) (enumerate k xs)"

text \<open>A replacement is the node itself or a primitive node.\<close>

definition replaced :: "(node \<rightharpoonup> node) \<Rightarrow> node \<Rightarrow> bool" where
  "replaced reps x = (reps x = Some x \<or> (\<exists>t. reps x = Some (PrimitiveNode t)))"

text \<open>
  The texts of the primitive nodes below a node: one interpretation of nodes as sets under
  which a composite node denotes the union of its children.
\<close>

fun primitive_texts :: "node \<Rightarrow> string set" where
  "primitive_texts (PrimitiveNode t) = {t}"
| "primitive_texts (CompositeNode t ns) = \<Union> (primitive_texts ` set ns)"

section \<open>Properties of selections\<close>

lemma rbind_Inr [simp]: "rbind (Inr x) f = f x"
  by (simp add: rbind_def)

lemma rbind_Inl [simp]: "rbind (Inl e) f = Inl e"
  by (simp add: rbind_def)

lemma node_of_nonvoid: "\<not> void s \<Longrightarrow> \<exists>n. node_of s = Inr n"
  by (induction s) auto

lemma node_read_when_not_void:
  "(\<not> void s \<longrightarrow> (\<exists>n. node_of s = Inr n))
   \<and> (void s \<longrightarrow> Selection_transform t s = Inr s)
   \<and> (root_selection object = Inr s \<and> void s \<longrightarrow>
        (\<exists>message. compile_scad depth object = Inl (Exception message)))"
  using node_of_nonvoid[of s]
  by (auto simp: Selection_transform_def compile_scad_def)

lemma void_invert [simp]: "void (Selection_invert s) = void s"
  by (simp add: Selection_invert_def)

lemma inverted_invert [simp]: "inverted (Selection_invert s) = (\<not> inverted s)"
  by (simp add: Selection_invert_def)

lemma node_of_invert [simp]: "node_of (Selection_invert s) = node_of s"
  by (simp add: Selection_invert_def)

text \<open>
  Claim C4, as the code has it. Inverting twice gives a selection with the same \<^verbatim>\<open>void\<close>,
  \<^verbatim>\<open>inverted\<close> and \<^verbatim>\<open>node\<close> as the original, but \<^verbatim>\<open>Selection.invert\<close> always allocates
  a new \<^verbatim>\<open>InvertedSelection\<close> around its argument: two inversions add two wrappers, and
  nothing collapses.
\<close>

theorem double_invert_observations:
  "void (Selection_invert (Selection_invert x)) = void x
   \<and> inverted (Selection_invert (Selection_invert x)) = inverted x
   \<and> node_of (Selection_invert (Selection_invert x)) = node_of x
   \<and> wrappers (Selection_invert (Selection_invert x)) = wrappers x + 2"
  by (simp add: Selection_invert_def)

text \<open>
  The part of claim C4 that fails: the representation does grow. Two inversions of the
  void selection are two nested wrappers around it, not the void selection itself.
\<close>

theorem double_invert_grows:
  "Selection_invert (Selection_invert void_selection)
     = InvertedSelection (InvertedSelection void_selection)
   \<and> wrappers (Selection_invert (Selection_invert void_selection)) = 2
   \<and> wrappers void_selection = 0
   \<and> Selection_invert (Selection_invert void_selection) \<noteq> void_selection"
  by (simp add: Selection_invert_def)

subsection \<open>Void terms in intersections and unions\<close>

lemma intersect_loop_void:
  "x \<in> set L \<Longrightarrow> void x \<Longrightarrow> \<not> inverted x \<Longrightarrow> intersect_loop L a b = Inr None"
proof (induction L arbitrary: a b)
  case Nil
  then show ?case by simp
next
  case (Cons i L)
  show ?case
  proof (cases "i = x")
    case True
    with Cons.prems show ?thesis by simp
  next
    case False
    with Cons.prems have "x \<in> set L" by simp
    with Cons have IH: "\<And>a b. intersect_loop L a b = Inr None" by simp
    show ?thesis
    proof (cases "void i")
      case True
      then show ?thesis by (simp add: IH)
    next
      case False
      then obtain n where "node_of i = Inr n" using node_of_nonvoid by blast
      then show ?thesis by (simp add: IH)
    qed
  qed
qed

lemma intersect_void:
  "x \<in> set L \<Longrightarrow> void x \<Longrightarrow> \<not> inverted x \<Longrightarrow> Selection_intersect L = Inr void_selection"
  by (simp add: Selection_intersect_def intersect_loop_void)

lemma union_inverted_void:
  assumes "x \<in> set L" "void x" "inverted x"
  shows "Selection_union L = Inr (Selection_invert void_selection)"
proof -
  have "Selection_invert x \<in> set (map Selection_invert L)" using assms by simp
  then have "Selection_intersect (map Selection_invert L) = Inr void_selection"
    using assms by (intro intersect_void[of "Selection_invert x"]) simp_all
  then show ?thesis by (simp add: Selection_union_def)
qed

lemma intersect_loop_drop:
  "void x \<Longrightarrow> inverted x \<Longrightarrow>
   intersect_loop (xs @ x # ys) a b = intersect_loop (xs @ ys) a b"
  by (induction xs arbitrary: a b) (auto simp: rbind_def split: sum.splits)

lemma intersect_drop:
  "void x \<Longrightarrow> inverted x \<Longrightarrow>
   Selection_intersect (xs @ x # ys) = Selection_intersect (xs @ ys)"
  by (simp add: Selection_intersect_def intersect_loop_drop)

lemma union_drop:
  "void x \<Longrightarrow> \<not> inverted x \<Longrightarrow> Selection_union (xs @ x # ys) = Selection_union (xs @ ys)"
  using intersect_drop[of "Selection_invert x" "map Selection_invert xs"
      "map Selection_invert ys"]
  by (simp add: Selection_union_def)

text \<open>
  Claim C3, as the code has it. A non-inverted void element makes
  \<^verbatim>\<open>Selection.intersect\<close> return \<^verbatim>\<open>void_selection\<close>. An inverted void element does
  not leave \<^verbatim>\<open>Selection.union\<close> unaffected: it makes the union
  \<^verbatim>\<open>invert(void_selection)\<close>, whatever the other elements are. The elements that a union
  drops without any effect on the result are the non-inverted void ones, and the elements
  that an intersection drops are the inverted void ones.
\<close>

theorem void_absorption:
  "(x \<in> set L \<and> void x \<and> \<not> inverted x \<longrightarrow> Selection_intersect L = Inr void_selection)
   \<and> (x \<in> set L \<and> void x \<and> inverted x \<longrightarrow>
        Selection_union L = Inr (Selection_invert void_selection))
   \<and> (void x \<and> \<not> inverted x \<longrightarrow>
        Selection_union (xs @ x # ys) = Selection_union (xs @ ys))
   \<and> (void x \<and> inverted x \<longrightarrow>
        Selection_intersect (xs @ x # ys) = Selection_intersect (xs @ ys))"
  using intersect_void union_inverted_void union_drop intersect_drop by blast

theorem void_absorption_witness:
  "Selection_intersect [NodeSelection (PrimitiveNode ''cube()''), void_selection]
     = Inr void_selection
   \<and> Selection_union [InvertedSelection void_selection, NodeSelection (PrimitiveNode ''cube()'')]
     = Inr (Selection_invert void_selection)
   \<and> Selection_union ([NodeSelection (PrimitiveNode ''cube()'')] @ void_selection # [])
     = Selection_union ([NodeSelection (PrimitiveNode ''cube()'')] @ [])
   \<and> Selection_intersect ([] @ InvertedSelection void_selection
         # [NodeSelection (PrimitiveNode ''cube()'')])
     = Selection_intersect ([] @ [NodeSelection (PrimitiveNode ''cube()'')])"
  using void_absorption [of void_selection
      "[NodeSelection (PrimitiveNode ''cube()''), void_selection]"
      "[NodeSelection (PrimitiveNode ''cube()'')]" "[]"]
    void_absorption [of "InvertedSelection void_selection"
      "[InvertedSelection void_selection, NodeSelection (PrimitiveNode ''cube()'')]"
      "[]" "[NodeSelection (PrimitiveNode ''cube()'')]"]
  by simp

text \<open>
  The part of claim C3 that fails: the union of an inverted void selection and a cube is
  the inverted void selection, which is void, while the union of the remaining element,
  the cube alone, is the doubly inverted cube, which is not void.
\<close>

theorem union_inverted_void_not_absorbed:
  "Selection_union [Selection_invert void_selection, NodeSelection (PrimitiveNode ''cube()'')]
     = Inr (InvertedSelection void_selection)
   \<and> Selection_union [NodeSelection (PrimitiveNode ''cube()'')]
     = Inr (InvertedSelection (InvertedSelection (NodeSelection (PrimitiveNode ''cube()''))))
   \<and> Selection_union [Selection_invert void_selection, NodeSelection (PrimitiveNode ''cube()'')]
     \<noteq> Selection_union [NodeSelection (PrimitiveNode ''cube()'')]"
  by (simp add: Selection_union_def Selection_intersect_def Selection_invert_def
      Selection_create_def Node_union_def Node_intersect_def)

subsection \<open>The node operations are only applied to non-empty sequences\<close>

lemma intersect_loop_total: "\<exists>r. intersect_loop L a b = Inr r"
proof (induction L arbitrary: a b)
  case Nil
  then show ?case by simp
next
  case (Cons i L)
  show ?case
  proof (cases "void i")
    case True
    then show ?thesis using Cons by simp
  next
    case False
    then obtain n where "node_of i = Inr n" using node_of_nonvoid by blast
    then show ?thesis using Cons by simp
  qed
qed

lemma Node_intersect_nonempty:
  "nodes \<noteq> [] \<Longrightarrow>
   Node_intersect nodes
     = Inr (if tl nodes = [] then hd nodes else CompositeNode ''intersection()'' nodes)"
  by (cases nodes) (auto simp: Node_intersect_def Node_compose_def str_call_def)

lemma Node_union_nonempty:
  "nodes \<noteq> [] \<Longrightarrow>
   Node_union nodes = Inr (if tl nodes = [] then hd nodes else CompositeNode ''union()'' nodes)"
  by (cases nodes) (auto simp: Node_union_def Node_compose_def str_call_def)

lemma intersect_total: "\<exists>s. Selection_intersect L = Inr s"
proof -
  obtain r where r: "intersect_loop L [] [] = Inr r" using intersect_loop_total by blast
  show ?thesis
  proof (cases r)
    case None
    with r show ?thesis by (simp add: Selection_intersect_def)
  next
    case (Some p)
    obtain a b where p: "p = (a, b)" by (cases p)
    show ?thesis
      using r Some p Node_intersect_nonempty[of b] Node_union_nonempty[of a]
      by (auto simp: Selection_intersect_def)
  qed
qed

lemma union_total: "\<exists>s. Selection_union L = Inr s"
  using intersect_total[of "map Selection_invert L"] by (auto simp: Selection_union_def)

text \<open>
  Claim C10. \<^verbatim>\<open>Node.intersect\<close> and \<^verbatim>\<open>Node.union\<close> fail on the empty sequence (the
  destructuring \<^verbatim>\<open>first, *rest = nodes\<close> raises), and a failure would propagate; yet
  \<^verbatim>\<open>Selection.intersect\<close> and \<^verbatim>\<open>Selection.union\<close> return a selection on every list, so
  they never apply the node operations to an empty sequence. On a non-empty sequence the
  node operations return the single element, or a composite whose children are the whole
  sequence, which then has at least two elements.
\<close>

theorem node_operations_nonempty:
  "Node_intersect [] = Inl ValueError \<and> Node_union [] = Inl ValueError
   \<and> (\<exists>s. Selection_intersect L = Inr s) \<and> (\<exists>s. Selection_union L = Inr s)
   \<and> (nodes \<noteq> [] \<longrightarrow>
        Node_intersect nodes
          = Inr (if tl nodes = [] then hd nodes else CompositeNode ''intersection()'' nodes)
        \<and> Node_union nodes
          = Inr (if tl nodes = [] then hd nodes else CompositeNode ''union()'' nodes))"
  using intersect_total union_total Node_intersect_nonempty Node_union_nonempty
  by (simp add: Node_intersect_def Node_union_def)

theorem node_operations_nonempty_witness:
  "Node_intersect [] = Inl ValueError \<and> Node_union [] = Inl ValueError
   \<and> (\<exists>s. Selection_intersect [] = Inr s) \<and> (\<exists>s. Selection_union [] = Inr s)
   \<and> Node_intersect [PrimitiveNode ''cube()'', PrimitiveNode ''sphere()'']
       = Inr (CompositeNode ''intersection()''
               [PrimitiveNode ''cube()'', PrimitiveNode ''sphere()''])
   \<and> Node_union [PrimitiveNode ''cube()'', PrimitiveNode ''sphere()'']
       = Inr (CompositeNode ''union()'' [PrimitiveNode ''cube()'', PrimitiveNode ''sphere()''])"
  using node_operations_nonempty [of "[]" "[PrimitiveNode ''cube()'', PrimitiveNode ''sphere()'']"]
  by simp

section \<open>Properties of object composition\<close>

lemma compose_non_object:
  "\<not> list_all is_Obj objects \<Longrightarrow> Object_compose operation objects = Inl AssertionError"
  by (simp add: Object_compose_def)

text \<open>
  Claim C9. \<^verbatim>\<open>Object.compose\<close> starts with
  \<^verbatim>\<open>assert all(isinstance(i, Object) for i in objects)\<close>. When an operand of \<^verbatim>\<open>+\<close>,
  \<^verbatim>\<open>*\<close> or \<^verbatim>\<open>-\<close> is not an object, the operation fails with this assertion, whatever
  the operation on the selectors is: nothing of the composition is computed first. This
  failed type assertion is the error the specification calls TypeMismatch. The only
  operand of the unary minus is the object itself.
\<close>

theorem arithmetic_requires_objects:
  "(\<not> list_all is_Obj objects \<longrightarrow> Object_compose operation objects = Inl AssertionError)
   \<and> (\<not> is_Obj other \<longrightarrow>
        Object_add self other = Inl AssertionError
        \<and> Object_mul self other = Inl AssertionError
        \<and> Object_sub self other = Inl AssertionError)"
  by (simp add: Object_add_def Object_mul_def Object_sub_def compose_non_object)

theorem arithmetic_requires_objects_witness:
  "Object_compose (\<lambda>sels. Inl TypeError :: error + selector)
       [Obj (Object_create void_selection), Other] = Inl AssertionError
   \<and> Object_add (Object_create void_selection) Other = Inl AssertionError
   \<and> Object_mul (Object_create void_selection) Other = Inl AssertionError
   \<and> Object_sub (Object_create void_selection) Other = Inl AssertionError"
  using arithmetic_requires_objects [of "[Obj (Object_create void_selection), Other]"
      "\<lambda>sels. Inl TypeError :: error + selector" Other "Object_create void_selection"]
  by simp

subsection \<open>Grouping by result selector\<close>

lemma map_of_tally_add:
  "map_of (tally_add k v res) k' =
     (if k' = k then Some ((case map_of res k of None \<Rightarrow> [] | Some vs \<Rightarrow> vs) @ [v])
      else map_of res k')"
  by (induction res) auto

lemma keys_tally_add:
  "map fst (tally_add k v res) = (if k \<in> set (map fst res) then map fst res else map fst res @ [k])"
  by (induction res) force+

lemma others_tally_add:
  "mset (concat (map snd (filter (\<lambda>(s, g). s \<noteq> k') (tally_add k v res)))) =
     (if k \<noteq> k' then {#v#} else {#}) + mset (concat (map snd (filter (\<lambda>(s, g). s \<noteq> k') res)))"
  by (induction res) auto

lemma map_of_fold_tally:
  "map_of (fold (\<lambda>(k, v) res. tally_add k v res) tuples acc) k =
     (let vals = map snd (filter (\<lambda>t. fst t = k) tuples) in
      case map_of acc k of
        None \<Rightarrow> if vals = [] then None else Some vals
      | Some vs \<Rightarrow> Some (vs @ vals))"
proof (induction tuples arbitrary: acc)
  case Nil
  then show ?case by (simp split: option.splits)
next
  case (Cons t tuples)
  obtain k' v where t: "t = (k', v)" by (cases t)
  show ?case
    by (simp add: t Cons.IH map_of_tally_add Let_def split: option.splits)
qed

lemma distinct_fold_tally:
  "distinct (map fst acc) \<Longrightarrow>
   distinct (map fst (fold (\<lambda>(k, v) res. tally_add k v res) tuples acc))"
proof (induction tuples arbitrary: acc)
  case Nil
  then show ?case by simp
next
  case (Cons t tuples)
  obtain k' v where t: "t = (k', v)" by (cases t)
  have "distinct (map fst (tally_add k' v acc))"
    using Cons.prems by (simp add: keys_tally_add)
  then show ?case using Cons.IH by (simp add: t)
qed

lemma keys_fold_tally:
  "set (map fst (fold (\<lambda>(k, v) res. tally_add k v res) tuples acc)) =
     set (map fst acc) \<union> set (map fst tuples)"
proof (induction tuples arbitrary: acc)
  case Nil
  then show ?case by simp
next
  case (Cons t tuples)
  obtain k' v where t: "t = (k', v)" by (cases t)
  have "set (map fst (tally_add k' v acc)) = insert k' (set (map fst acc))"
    by (auto simp add: keys_tally_add)
  then show ?case using Cons.IH[of "tally_add k' v acc"] by (simp add: t)
qed

lemma others_fold_tally:
  "mset (concat (map snd (filter (\<lambda>(s, g). s \<noteq> k)
       (fold (\<lambda>(k, v) res. tally_add k v res) tuples acc)))) =
   mset (concat (map snd (filter (\<lambda>(s, g). s \<noteq> k) acc)))
     + mset (map snd (filter (\<lambda>t. fst t \<noteq> k) tuples))"
proof (induction tuples arbitrary: acc)
  case Nil
  then show ?case by simp
next
  case (Cons t tuples)
  obtain k' v where t: "t = (k', v)" by (cases t)
  show ?case
    by (simp add: t Cons.IH others_tally_add)
qed

lemma map_of_tally:
  "k \<in> set (map fst tuples) \<Longrightarrow>
   map_of (tally tuples) k = Some (map snd (filter (\<lambda>t. fst t = k) tuples))"
  unfolding tally_def by (auto simp add: map_of_fold_tally Let_def filter_empty_conv)

lemma inverse_groups_tally:
  "mset (inverse_groups_of (tally tuples) k) = mset (map snd (filter (\<lambda>t. fst t \<noteq> k) tuples))"
  unfolding tally_def inverse_groups_of_def by (simp add: others_fold_tally)

lemma sequence_map_Inr:
  "sequence (map f xs) = Inr ys \<Longrightarrow> list_all2 (\<lambda>x y. f x = Inr y) xs ys"
proof (induction xs arbitrary: ys)
  case Nil
  then show ?case by simp
next
  case (Cons x xs)
  then show ?case by (auto simp: rbind_def split: sum.splits)
qed

lemma list_all2_fst_keys:
  "list_all2 (\<lambda>x y. fst y = x \<and> Q x y) xs ys \<Longrightarrow> map fst ys = xs"
  by (induction xs ys rule: list_all2_induct) auto

lemma list_all2_fst_vals:
  "list_all2 (\<lambda>x y. fst y = x \<and> Q x y) xs ys \<Longrightarrow> \<forall>y \<in> set ys. Q (fst y) y"
  by (induction xs ys rule: list_all2_induct) auto

lemma compose_result:
  assumes "Object_compose operation objects = Inr result"
  shows "\<exists>tuples. iter_selections operation (map the_Obj objects) = Inr tuples
      \<and> map fst (selections result) = map fst (tally tuples)
      \<and> (\<forall>s \<in> set (map fst tuples).
            compute_selection (tally tuples) s = Inr (get_selection result s))"
proof -
  from assms have objs: "list_all is_Obj objects"
    by (auto simp: Object_compose_def split: if_splits)
  from assms objs obtain tuples where
    tuples: "iter_selections operation (map the_Obj objects) = Inr tuples"
    by (cases "iter_selections operation (map the_Obj objects)") (auto simp: Object_compose_def)
  let ?T = "tally tuples"
  let ?f = "\<lambda>i. rbind (compute_selection ?T i) (\<lambda>v. Inr (i, v))"
  from assms objs tuples obtain items where
    items: "sequence (map ?f (map fst ?T)) = Inr items" and result: "result = Object items"
    by (cases "sequence (map ?f (map fst ?T))") (auto simp: Object_compose_def Let_def)
  from items have rel: "list_all2 (\<lambda>x y. ?f x = Inr y) (map fst ?T) items"
    by (rule sequence_map_Inr)
  have each: "\<And>x y. ?f x = Inr y \<Longrightarrow> fst y = x \<and> compute_selection ?T x = Inr (snd y)"
    by (auto simp: rbind_def split: sum.splits)
  from rel each have rel2: "list_all2 (\<lambda>x y. fst y = x \<and> compute_selection ?T x = Inr (snd y)) (map fst ?T) items"
    by (rule list_all2_mono) blast
  then have keys: "map fst items = map fst ?T"
    by (rule list_all2_fst_keys)
  have dist: "distinct (map fst items)"
    unfolding keys tally_def by (rule distinct_fold_tally) simp
  have vals: "\<forall>y \<in> set items. compute_selection ?T (fst y) = Inr (snd y)"
    using list_all2_fst_vals[OF rel2] by simp
  have "\<forall>s \<in> set (map fst tuples). compute_selection ?T s = Inr (get_selection result s)"
  proof
    fix s assume "s \<in> set (map fst tuples)"
    moreover have "set (map fst ?T) = set (map fst tuples)"
      unfolding tally_def using keys_fold_tally[of tuples "[]"] by simp
    ultimately have "s \<in> set (map fst items)"
      using keys by simp
    then obtain v where v: "(s, v) \<in> set items" by auto
    with dist have "map_of items s = Some v" by simp
    then have "get_selection result s = v" by (simp add: get_selection_def result)
    with vals v show "compute_selection ?T s = Inr (get_selection result s)" by fastforce
  qed
  with tuples keys result show ?thesis by auto
qed

lemma rbind_eq_Inr: "rbind m f = Inr y \<Longrightarrow> \<exists>x. m = Inr x \<and> f x = Inr y"
  by (cases m) auto

lemma sequence_map_eq:
  "sequence (map f xs) = Inr ys \<Longrightarrow> map f xs = map Inr ys"
proof (induction xs arbitrary: ys)
  case Nil
  then show ?case by simp
next
  case (Cons x xs)
  then show ?case by (auto simp: rbind_def split: sum.splits)
qed

lemma combine_Inr:
  assumes "combine groups = Inr u"
  shows "\<exists>intersections. map Selection_intersect groups = map Inr intersections
            \<and> Selection_union intersections = Inr u"
proof -
  from assms obtain xs where "sequence (map Selection_intersect groups) = Inr xs"
    "Selection_union xs = Inr u"
    unfolding combine_def by (blast dest: rbind_eq_Inr)
  then show ?thesis by (blast dest: sequence_map_eq)
qed

text \<open>
  Claim C7. Let \<^verbatim>\<open>Object.compose\<close> succeed, and let \<open>tuples\<close> be the pairs of result
  selector and selection group that \<^verbatim>\<open>iter_selections\<close> yields, one per combination of
  the cross product. The keys of the result are exactly the selectors of these pairs, each
  once. For every result selector \<open>s\<close>, \<open>groups\<close> are the groups of the combinations
  mapped to \<open>s\<close> and \<open>others\<close> the groups of the combinations mapped to any other
  selector; \<^verbatim>\<open>inverse_groups\<close> holds exactly the groups of \<open>others\<close>. When there are
  more groups than other groups, the groups chosen are \<^verbatim>\<open>inverse_groups\<close>, otherwise
  they are \<open>groups\<close>. \<^verbatim>\<open>Selection.intersect\<close> succeeds on each of the chosen groups,
  \<^verbatim>\<open>Selection.union\<close> succeeds on the list of these intersections, and the selection
  stored for \<open>s\<close> is that union, inverted by \<^verbatim>\<open>Selection.invert\<close> exactly when there are
  more groups than other groups.
\<close>

theorem compose_term_count:
  assumes "Object_compose operation objects = Inr result"
  shows "\<exists>tuples. iter_selections operation (map the_Obj objects) = Inr tuples
     \<and> set (selectors result) = set (map fst tuples) \<and> distinct (selectors result)
     \<and> (\<forall>s \<in> set (map fst tuples).
        let groups = map snd (filter (\<lambda>t. fst t = s) tuples);
            others = map snd (filter (\<lambda>t. fst t \<noteq> s) tuples);
            inverse_groups = inverse_groups_of (tally tuples) s;
            chosen = (if length groups > length others then inverse_groups else groups)
        in mset inverse_groups = mset others \<and>
           (\<exists>intersections u.
               map Selection_intersect chosen = map Inr intersections
             \<and> Selection_union intersections = Inr u
             \<and> get_selection result s
                 = (if length groups > length others then Selection_invert u else u)))"
proof -
  from compose_result[OF assms] obtain tuples where
    t: "iter_selections operation (map the_Obj objects) = Inr tuples" and
    k: "map fst (selections result) = map fst (tally tuples)" and
    c: "\<forall>s \<in> set (map fst tuples). compute_selection (tally tuples) s = Inr (get_selection result s)"
    by blast
  have keys: "set (selectors result) = set (map fst tuples)"
    unfolding selectors_def k tally_def using keys_fold_tally[of tuples "[]"] by simp
  have dist: "distinct (selectors result)"
    unfolding selectors_def k tally_def by (rule distinct_fold_tally) simp
  have "\<forall>s \<in> set (map fst tuples).
        let groups = map snd (filter (\<lambda>t. fst t = s) tuples);
            others = map snd (filter (\<lambda>t. fst t \<noteq> s) tuples);
            inverse_groups = inverse_groups_of (tally tuples) s;
            chosen = (if length groups > length others then inverse_groups else groups)
        in mset inverse_groups = mset others \<and>
           (\<exists>intersections u.
               map Selection_intersect chosen = map Inr intersections
             \<and> Selection_union intersections = Inr u
             \<and> get_selection result s
                 = (if length groups > length others then Selection_invert u else u))"
  proof
    fix s assume s: "s \<in> set (map fst tuples)"
    define groups where "groups = map snd (filter (\<lambda>t. fst t = s) tuples)"
    define others where "others = map snd (filter (\<lambda>t. fst t \<noteq> s) tuples)"
    define inverse_groups where "inverse_groups = inverse_groups_of (tally tuples) s"
    define chosen where
      "chosen = (if length groups > length others then inverse_groups else groups)"
    have m: "mset inverse_groups = mset others"
      unfolding inverse_groups_def others_def by (rule inverse_groups_tally)
    then have l: "length inverse_groups = length others" by (rule mset_eq_length)
    from c s have "compute_selection (tally tuples) s = Inr (get_selection result s)" by blast
    then have stored: "(if length groups > length others
              then rbind (combine inverse_groups) (\<lambda>c. Inr (Selection_invert c))
              else combine groups) = Inr (get_selection result s)"
      using l by (auto simp add: compute_selection_def map_of_tally[OF s] Let_def groups_def
          inverse_groups_def simp del: length_map split: if_splits)
    have "\<exists>intersections u.
               map Selection_intersect chosen = map Inr intersections
             \<and> Selection_union intersections = Inr u
             \<and> get_selection result s
                 = (if length groups > length others then Selection_invert u else u)"
    proof (cases "length groups > length others")
      case True
      with stored obtain u where u: "combine inverse_groups = Inr u"
        "get_selection result s = Selection_invert u"
        by (auto dest!: rbind_eq_Inr)
      from combine_Inr[OF u(1)] u(2) True show ?thesis by (auto simp: chosen_def)
    next
      case False
      with stored have u: "combine groups = Inr (get_selection result s)" by simp
      from combine_Inr[OF u] False show ?thesis by (auto simp: chosen_def)
    qed
    with m show "let groups = map snd (filter (\<lambda>t. fst t = s) tuples);
            others = map snd (filter (\<lambda>t. fst t \<noteq> s) tuples);
            inverse_groups = inverse_groups_of (tally tuples) s;
            chosen = (if length groups > length others then inverse_groups else groups)
        in mset inverse_groups = mset others \<and>
           (\<exists>intersections u.
               map Selection_intersect chosen = map Inr intersections
             \<and> Selection_union intersections = Inr u
             \<and> get_selection result s
                 = (if length groups > length others then Selection_invert u else u))"
      unfolding Let_def groups_def others_def inverse_groups_def chosen_def by simp
  qed
  with t keys dist show ?thesis by blast
qed

section \<open>Properties of the walk over the nodes\<close>

lemma subnodes_unfold: "subnodes n = insert n (\<Union> (subnodes ` set (child_nodes n)))"
  by (cases n) auto

lemma subnodes_self [simp]: "n \<in> subnodes n"
  by (cases n) auto

lemma subnodes_size: "m \<in> subnodes n \<Longrightarrow> size m \<le> size n"
proof (induction n)
  case (PrimitiveNode t)
  then show ?case by simp
next
  case (CompositeNode t ns)
  from CompositeNode.prems consider "m = CompositeNode t ns" | c where "c \<in> set ns" "m \<in> subnodes c"
    by auto
  then show ?case
  proof cases
    case 1
    then show ?thesis by simp
  next
    case 2
    with CompositeNode.IH have "size m \<le> size c" by blast
    moreover have "size c < size (CompositeNode t ns)"
      using 2(1) size_child_nodes[of c "CompositeNode t ns"] by simp
    ultimately show ?thesis by simp
  qed
qed

lemma child_not_above: "c \<in> set (child_nodes n) \<Longrightarrow> n \<notin> subnodes c"
  using subnodes_size[of n c] size_child_nodes[of c n] by auto

lemma subnodes_child: "c \<in> set (child_nodes n) \<Longrightarrow> subnodes c \<subseteq> subnodes n"
  by (subst (2) subnodes_unfold) auto

lemma subnodes_trans: "m \<in> subnodes n \<Longrightarrow> x \<in> subnodes m \<Longrightarrow> x \<in> subnodes n"
  by (induction n) auto

lemma postorder_closed:
  assumes "postorder l" "x \<in> set l"
  shows "subnodes x \<subseteq> set l"
proof -
  from assms(2) obtain xs ys where l: "l = xs @ x # ys" by (auto simp: in_set_conv_decomp)
  with assms(1) have "subnodes x \<subseteq> insert x (set xs)" unfolding postorder_def by blast
  with l show ?thesis by auto
qed

lemma postorder_snoc:
  assumes "postorder l" "subnodes n \<subseteq> insert n (set l)"
  shows "postorder (l @ [n])"
  unfolding postorder_def
proof (intro allI impI)
  fix xs x ys
  assume eq: "l @ [n] = xs @ x # ys"
  show "subnodes x \<subseteq> insert x (set xs)"
  proof (cases ys rule: rev_cases)
    case Nil
    with eq have "xs = l" "x = n" by auto
    with assms(2) show ?thesis by simp
  next
    case (snoc ys' y)
    with eq have "l = xs @ x # ys'" by (metis append.assoc append_Cons butlast_snoc)
    with assms(1) show ?thesis unfolding postorder_def by blast
  qed
qed

lemma fold_walk_post:
  assumes step: "\<And>c s. c \<in> set cs \<Longrightarrow> walk_inv s \<Longrightarrow> pending s \<inter> subnodes c = {}
            \<Longrightarrow> walk_post (subnodes c) s (walk_nodes c s)"
    and "walk_inv s" "pending s \<inter> (\<Union> (subnodes ` set cs)) = {}"
  shows "walk_post (\<Union> (subnodes ` set cs)) s (fold walk_nodes cs s)"
  using assms
proof (induction cs arbitrary: s)
  case Nil
  then show ?case by (simp add: walk_post_def)
next
  case (Cons c cs)
  have 1: "walk_post (subnodes c) s (walk_nodes c s)"
    using Cons.prems by (intro Cons.prems(1)) auto
  let ?s1 = "walk_nodes c s"
  have 2: "walk_post (\<Union> (subnodes ` set cs)) ?s1 (fold walk_nodes cs ?s1)"
  proof (rule Cons.IH)
    show "walk_inv ?s1" using 1 by (simp add: walk_post_def)
    show "pending ?s1 \<inter> \<Union> (subnodes ` set cs) = {}"
      using 1 Cons.prems(3) by (auto simp: walk_post_def)
    show "\<And>c' s'. c' \<in> set cs \<Longrightarrow> walk_inv s' \<Longrightarrow> pending s' \<inter> subnodes c' = {}
            \<Longrightarrow> walk_post (subnodes c') s' (walk_nodes c' s')"
      using Cons.prems(1) by simp
  qed
  from 1 2 show ?case
    by (auto simp: walk_post_def)
qed

lemma walk_nodes_post:
  "walk_inv s \<Longrightarrow> pending s \<inter> subnodes n = {} \<Longrightarrow> walk_post (subnodes n) s (walk_nodes n s)"
proof (induction n arbitrary: s rule: measure_induct_rule[of size])
  case (less n)
  show ?case
  proof (cases "n \<in> nodes_set s")
    case True
    with less.prems(2) have "n \<in> set (nodes_list s)" by (auto simp: pending_def)
    with less.prems(1) have "subnodes n \<subseteq> set (nodes_list s)"
      by (auto simp: walk_inv_def dest: postorder_closed)
    with True less.prems(1) show ?thesis
      by (subst walk_nodes.simps) (auto simp: walk_post_def walk_inv_def pending_def)
  next
    case False
    let ?s1 = "s\<lparr>nodes_set := insert n (nodes_set s)\<rparr>"
    let ?cs = "child_nodes n"
    let ?s2 = "fold walk_nodes ?cs ?s1"
    have nl: "n \<notin> set (nodes_list s)" using False less.prems(1) by (auto simp: walk_inv_def)
    have inv1: "walk_inv ?s1" using less.prems(1) by (auto simp: walk_inv_def)
    have pend1: "pending ?s1 = insert n (pending s)" using nl by (auto simp: pending_def)
    have disj: "pending ?s1 \<inter> (\<Union> (subnodes ` set ?cs)) = {}"
    proof -
      have "\<And>c. c \<in> set ?cs \<Longrightarrow> pending ?s1 \<inter> subnodes c = {}"
        using less.prems(2) pend1 child_not_above subnodes_child by fastforce
      then show ?thesis by blast
    qed
    have post2: "walk_post (\<Union> (subnodes ` set ?cs)) ?s1 ?s2"
    proof (rule fold_walk_post[OF _ inv1 disj])
      fix c s' assume "c \<in> set ?cs" "walk_inv s'" "pending s' \<inter> subnodes c = {}"
      then show "walk_post (subnodes c) s' (walk_nodes c s')"
        using less.IH[of c s'] size_child_nodes by simp
    qed
    have eq: "walk_nodes n s = ?s2\<lparr>nodes_list := nodes_list ?s2 @ [n]\<rparr>"
      using False by (subst walk_nodes.simps) (simp add: Let_def)
    from post2 have inv2: "walk_inv ?s2" and pend2: "pending ?s2 = insert n (pending s)"
      and set2: "set (nodes_list ?s2) = set (nodes_list s) \<union> (\<Union> (subnodes ` set ?cs))"
      and pre2: "\<exists>ys. nodes_list ?s2 = nodes_list s @ ys"
      by (auto simp: walk_post_def pend1)
    from pend2 have n2: "n \<in> nodes_set ?s2" "n \<notin> set (nodes_list ?s2)"
      by (auto simp: pending_def)
    have sub: "subnodes n = insert n (\<Union> (subnodes ` set ?cs))" by (rule subnodes_unfold)
    have "postorder (nodes_list ?s2 @ [n])"
      using inv2 set2 sub by (intro postorder_snoc) (auto simp: walk_inv_def)
    then have "walk_inv (walk_nodes n s)"
      using inv2 n2 by (auto simp: eq walk_inv_def)
    moreover have "pending (walk_nodes n s) = pending s"
      using pend2 n2 False nl by (auto simp: eq pending_def)
    moreover have "set (nodes_list (walk_nodes n s)) = set (nodes_list s) \<union> subnodes n"
      using set2 sub by (auto simp: eq)
    moreover have "\<exists>ys. nodes_list (walk_nodes n s) = nodes_list s @ ys"
      using pre2 by (auto simp: eq)
    ultimately show ?thesis by (simp add: walk_post_def)
  qed
qed

lemma walk_root_nodes:
  "set (nodes_list (walk_root r)) = subnodes r \<and> distinct (nodes_list (walk_root r))
   \<and> postorder (nodes_list (walk_root r))"
proof -
  let ?s0 = "\<lparr>nodes_set = {}, nodes_list = [], reused_nodes = {}\<rparr>"
  have "walk_post (subnodes r) ?s0 (walk_nodes r ?s0)"
    by (rule walk_nodes_post) (auto simp: walk_inv_def pending_def postorder_def)
  then show ?thesis by (auto simp: walk_post_def walk_inv_def walk_root_def)
qed

subsection \<open>The nodes met again\<close>

lemma fold_count_post:
  assumes step: "\<And>c s M. c \<in> set cs \<Longrightarrow> count_inv s M \<Longrightarrow> count_post {#c#} s M (walk_nodes c s)"
    and "count_inv s M"
  shows "count_post (mset cs) s M (fold walk_nodes cs s)"
  using assms
proof (induction cs arbitrary: s M)
  case Nil
  then show ?case by (simp add: count_post_def)
next
  case (Cons c cs)
  let ?s1 = "walk_nodes c s"
  from Cons.prems have "count_post {#c#} s M ?s1" by simp
  then obtain ys where ys: "nodes_list ?s1 = nodes_list s @ ys"
    and inv1: "count_inv ?s1 (M + {#c#} + mset (concat (map child_nodes ys)))"
    by (auto simp: count_post_def)
  let ?M1 = "M + {#c#} + mset (concat (map child_nodes ys))"
  have "count_post (mset cs) ?s1 ?M1 (fold walk_nodes cs ?s1)"
    using Cons.prems(1) inv1 by (intro Cons.IH) auto
  then obtain zs where zs: "nodes_list (fold walk_nodes cs ?s1) = nodes_list ?s1 @ zs"
    and inv2: "count_inv (fold walk_nodes cs ?s1) (?M1 + mset cs + mset (concat (map child_nodes zs)))"
    by (auto simp: count_post_def)
  show ?case
    unfolding count_post_def
  proof (intro exI[of _ "ys @ zs"] conjI)
    show "nodes_list (fold walk_nodes (c # cs) s) = nodes_list s @ ys @ zs"
      using ys zs by simp
    show "count_inv (fold walk_nodes (c # cs) s)
       (M + mset (c # cs) + mset (concat (map child_nodes (ys @ zs))))"
      using inv2 by (simp add: ac_simps)
  qed
qed

lemma walk_nodes_count:
  "count_inv s M \<Longrightarrow> count_post {#n#} s M (walk_nodes n s)"
proof (induction n arbitrary: s M rule: measure_induct_rule[of size])
  case (less n)
  show ?case
  proof (cases "n \<in> nodes_set s")
    case True
    then have eq: "walk_nodes n s = s\<lparr>reused_nodes := insert n (reused_nodes s)\<rparr>"
      by (subst walk_nodes.simps) simp
    from True less.prems have "1 \<le> count M n" by (auto simp: count_inv_def)
    with True less.prems have "count_inv (walk_nodes n s) (M + {#n#})"
      by (auto simp: eq count_inv_def)
    then show ?thesis by (simp add: count_post_def eq)
  next
    case False
    let ?s1 = "s\<lparr>nodes_set := insert n (nodes_set s)\<rparr>"
    let ?cs = "child_nodes n"
    let ?s2 = "fold walk_nodes ?cs ?s1"
    have eq: "walk_nodes n s = ?s2\<lparr>nodes_list := nodes_list ?s2 @ [n]\<rparr>"
      using False by (subst walk_nodes.simps) (simp add: Let_def)
    from False less.prems have nM: "n \<notin># M" by (auto simp: count_inv_def)
    then have "count M n = 0" by (simp add: count_eq_zero_iff)
    with less.prems nM have inv1: "count_inv ?s1 (M + {#n#})"
      by (auto simp: count_inv_def)
    have "count_post (mset ?cs) ?s1 (M + {#n#}) ?s2"
    proof (rule fold_count_post[OF _ inv1])
      fix c s' M' assume "c \<in> set ?cs" "count_inv s' M'"
      then show "count_post {#c#} s' M' (walk_nodes c s')"
        using less.IH[of c s' M'] size_child_nodes by simp
    qed
    then obtain ys where ys: "nodes_list ?s2 = nodes_list s @ ys"
      and inv2: "count_inv ?s2 (M + {#n#} + mset ?cs + mset (concat (map child_nodes ys)))"
      by (auto simp: count_post_def)
    show ?thesis
      unfolding count_post_def
    proof (intro exI[of _ "ys @ [n]"] conjI)
      show "nodes_list (walk_nodes n s) = nodes_list s @ ys @ [n]"
        using ys by (simp add: eq)
      show "count_inv (walk_nodes n s) (M + {#n#} + mset (concat (map child_nodes (ys @ [n]))))"
        using inv2 by (simp add: eq count_inv_def ac_simps)
    qed
  qed
qed

lemma walk_root_reused:
  "reused_nodes (walk_root r) =
     {x. 2 \<le> count ({#r#} + mset (concat (map child_nodes (nodes_list (walk_root r))))) x}"
proof -
  let ?s0 = "\<lparr>nodes_set = {}, nodes_list = [], reused_nodes = {}\<rparr>"
  have "count_post {#r#} ?s0 {#} (walk_nodes r ?s0)"
    by (rule walk_nodes_count) (simp add: count_inv_def)
  then show ?thesis by (auto simp: count_post_def count_inv_def walk_root_def)
qed

lemma set_all_nodes: "set (all_nodes n) = subnodes n"
  by (induction n) auto

lemma mset_concat_map_cong:
  "mset xs = mset ys \<Longrightarrow> mset (concat (map f xs)) = mset (concat (map f ys))"
proof -
  have "\<And>zs. mset (concat (map f zs)) = (\<Sum>z\<in>#mset zs. mset (f z))"
    by (induct_tac zs) auto
  then show "mset xs = mset ys \<Longrightarrow> ?thesis" by simp
qed

lemma root_not_child:
  assumes "p \<in> subnodes r" shows "r \<notin> set (child_nodes p)"
proof
  assume "r \<in> set (child_nodes p)"
  then have "size r < size p" by (rule size_child_nodes)
  moreover have "size p \<le> size r" using assms by (rule subnodes_size)
  ultimately show False by simp
qed

lemma occurrences_root: "occurrences r r = 0"
proof -
  have "r \<notin> set (concat (map child_nodes (dag_nodes r)))"
    using root_not_child by (auto simp: dag_nodes_def set_all_nodes)
  then show ?thesis by (simp add: occurrences_def)
qed

lemma walk_root_dag: "mset (nodes_list (walk_root r)) = mset (dag_nodes r)"
  using walk_root_nodes[of r]
  by (intro iffD1[OF set_eq_iff_mset_eq_distinct]) (auto simp: dag_nodes_def set_all_nodes)

lemma reused_occurrences: "reused_nodes (walk_root r) = {x. 2 \<le> occurrences r x}"
proof -
  have eq: "mset (concat (map child_nodes (nodes_list (walk_root r))))
      = mset (concat (map child_nodes (dag_nodes r)))"
    by (rule mset_concat_map_cong) (rule walk_root_dag)
  have "\<And>x. count ({#r#} + mset (concat (map child_nodes (nodes_list (walk_root r))))) x
      = (if x = r then 1 else 0) + occurrences r x"
    by (simp add: eq occurrences_def count_mset)
  then have "reused_nodes (walk_root r) = {x. 2 \<le> (if x = r then 1 else 0) + occurrences r x}"
    by (simp add: walk_root_reused)
  also have "\<dots> = {x. 2 \<le> occurrences r x}"
    using occurrences_root[of r] by auto
  finally show ?thesis .
qed

lemma numbered_Nil [simp]: "numbered k [] = []"
  by (simp add: numbered_def)

lemma numbered_Cons [simp]:
  "numbered k (x # xs) = Module (''node_'' @ str_nat (k + 1)) x # numbered (Suc k) xs"
  by (simp add: numbered_def)

lemma m_node_numbered [simp]: "map m_node (numbered k xs) = xs"
  by (induction xs arbitrary: k) auto

lemma length_numbered [simp]: "length (numbered k xs) = length xs"
  by (simp add: numbered_def)

lemma m_name_numbered:
  "i < length xs \<Longrightarrow> m_name (numbered k xs ! i) = ''node_'' @ str_nat (k + i + 1)"
  by (simp add: numbered_def nth_enumerate_eq)

lemma replace_node_step:
  "replace_node R y (reps, mods) =
     (if y \<in> R then
        (reps(y \<mapsto> reference (Module (''node_'' @ str_nat (length mods + 1)) y)),
         mods @ [Module (''node_'' @ str_nat (length mods + 1)) y])
      else (reps(y \<mapsto> y), mods))"
  by (simp add: replace_node_def Let_def)

lemma fold_replace_modules:
  "snd (fold (replace_node R) l (reps, mods)) = mods @ numbered (length mods) (filter (\<lambda>x. x \<in> R) l)"
  by (induction l arbitrary: reps mods) (auto simp: replace_node_step)

lemma fold_replace_other:
  "x \<notin> set l \<Longrightarrow> fst (fold (replace_node R) l (reps, mods)) x = reps x"
  by (induction l arbitrary: reps mods) (auto simp: replace_node_step)

lemma fold_replace_inline:
  "distinct l \<Longrightarrow> x \<in> set l \<Longrightarrow> x \<notin> R \<Longrightarrow> fst (fold (replace_node R) l (reps, mods)) x = Some x"
proof (induction l arbitrary: reps mods)
  case Nil
  then show ?case by simp
next
  case (Cons y l)
  show ?case
  proof (cases "y = x")
    case True
    with Cons.prems show ?thesis
      by (simp add: replace_node_step fold_replace_other)
  next
    case False
    with Cons.prems Cons.IH show ?thesis
      by (auto simp: replace_node_step)
  qed
qed

lemma fold_replace_reference:
  "distinct l \<Longrightarrow> x \<in> set l \<Longrightarrow> x \<in> R \<Longrightarrow>
   \<exists>m \<in> set (numbered (length mods) (filter (\<lambda>x. x \<in> R) l)).
      m_node m = x \<and> fst (fold (replace_node R) l (reps, mods)) x = Some (reference m)"
proof (induction l arbitrary: reps mods)
  case Nil
  then show ?case by simp
next
  case (Cons y l)
  show ?case
  proof (cases "y = x")
    case True
    with Cons.prems show ?thesis
      by (simp add: replace_node_step fold_replace_other)
  next
    case False
    with Cons.prems have dl: "distinct l" "x \<in> set l" by auto
    obtain reps1 mods1 where step: "replace_node R y (reps, mods) = (reps1, mods1)"
      by force
    then have len: "length mods1 = (if y \<in> R then Suc (length mods) else length mods)"
      by (auto simp: replace_node_step split: if_splits)
    from Cons.IH[OF dl Cons.prems(3), of mods1 reps1] obtain m where
      m: "m \<in> set (numbered (length mods1) (filter (\<lambda>x. x \<in> R) l))" "m_node m = x"
         "fst (fold (replace_node R) l (reps1, mods1)) x = Some (reference m)"
      by blast
    have "m \<in> set (numbered (length mods) (filter (\<lambda>x. x \<in> R) (y # l)))"
      using m(1) len by (simp split: if_splits)
    moreover have "fst (fold (replace_node R) (y # l) (reps, mods)) x = Some (reference m)"
      using m(3) step by simp
    ultimately show ?thesis using m(2) by blast
  qed
qed

section \<open>Properties of the rendering\<close>

lemma fold_max_ge: "(a::nat) \<le> fold max xs a"
  by (induction xs arbitrary: a) (auto intro: order_trans[OF max.cobounded2])

lemma fold_max_mem: "(x::nat) \<in> set xs \<Longrightarrow> x \<le> fold max xs a"
proof (induction xs arbitrary: a)
  case Nil
  then show ?case by simp
next
  case (Cons y xs)
  then show ?case
    using fold_max_ge[of "max y a" xs] by auto
qed

lemma height_child: "c \<in> set ns \<Longrightarrow> height c < height (CompositeNode t ns)"
  using fold_max_mem[of "height c" "map height ns" 0] by (simp add: less_Suc_eq_le)

lemma wf_subnodes: "wf_node n \<Longrightarrow> m \<in> subnodes n \<Longrightarrow> wf_node m"
  by (induction n) (auto simp: list_all_iff)

lemma height_subnodes: "m \<in> subnodes n \<Longrightarrow> height m \<le> height n"
proof (induction n)
  case (PrimitiveNode t)
  then show ?case by simp
next
  case (CompositeNode t ns)
  from CompositeNode.prems consider "m = CompositeNode t ns"
    | c where "c \<in> set ns" "m \<in> subnodes c"
    by auto
  then show ?case
  proof cases
    case 1
    then show ?thesis by simp
  next
    case 2
    with CompositeNode.IH have "height m \<le> height c" by blast
    with height_child[OF 2(1), of t] show ?thesis by simp
  qed
qed

lemma sequence_all_Inr:
  "\<forall>x \<in> set xs. \<exists>y. f x = Inr y \<Longrightarrow> \<exists>ys. sequence (map f xs) = Inr ys"
proof (induction xs)
  case Nil
  then show ?case by simp
next
  case (Cons x xs)
  then obtain y ys where "f x = Inr y" "sequence (map f xs) = Inr ys" by auto
  then show ?case by simp
qed

lemma iter_lines_total:
  "\<forall>x \<in> subnodes n. replaced reps x \<Longrightarrow> wf_node n \<Longrightarrow> height n \<le> d
   \<Longrightarrow> \<exists>ls. iter_lines d reps n = Inr ls"
proof (induction n arbitrary: d)
  case (PrimitiveNode t)
  then show ?case by simp
next
  case (CompositeNode t ns)
  from CompositeNode.prems(3) obtain d' where d: "d = Suc d'" by (cases d) auto
  let ?f = "\<lambda>i. case reps i of None \<Rightarrow> Inl KeyError
      | Some r \<Rightarrow> rbind (iter_lines d' reps r) (\<lambda>ls. Inr (indent ls))"
  have each: "\<exists>y. ?f c = Inr y" if c: "c \<in> set ns" for c
  proof -
    from c CompositeNode.prems(1) have "replaced reps c" by auto
    then consider "reps c = Some c" | t' where "reps c = Some (PrimitiveNode t')"
      by (auto simp: replaced_def)
    then show ?thesis
    proof cases
      case 1
      have "\<exists>ls. iter_lines d' reps c = Inr ls"
      proof (rule CompositeNode.IH[OF c])
        show "\<forall>x\<in>subnodes c. replaced reps x" using c CompositeNode.prems(1) by auto
        show "wf_node c" using c CompositeNode.prems(2) by (auto simp: list_all_iff)
        show "height c \<le> d'" using height_child[OF c, of t] CompositeNode.prems(3) d by simp
      qed
      with 1 show ?thesis by auto
    next
      case 2
      then show ?thesis by simp
    qed
  qed
  from CompositeNode.prems(2) obtain first rest where ns: "ns = first # rest"
    by (cases ns) auto
  show ?case
  proof (cases "rest = []")
    case True
    from each[of first] ns obtain y where "?f first = Inr y" by auto
    with True ns d show ?thesis by simp
  next
    case False
    from each have "\<exists>ys. sequence (map ?f ns) = Inr ys"
      by (intro sequence_all_Inr) blast
    then obtain ys where "sequence (map ?f ns) = Inr ys" by blast
    with False ns d show ?thesis by simp
  qed
qed

lemma assign_modules_eq:
  "assign_modules (walk_root r) = (reps, modules) \<Longrightarrow>
   modules = numbered 0 (filter (\<lambda>x. x \<in> reused_nodes (walk_root r)) (rev (nodes_list (walk_root r))))"
  using fold_replace_modules[of "reused_nodes (walk_root r)" "rev (nodes_list (walk_root r))" Map.empty "[]"]
  by (simp add: assign_modules_def)

lemma assign_modules_replaced:
  assumes "assign_modules (walk_root r) = (reps, modules)" "x \<in> subnodes r"
  shows "replaced reps x"
proof -
  let ?R = "reused_nodes (walk_root r)" and ?l = "rev (nodes_list (walk_root r))"
  have l: "distinct ?l" "x \<in> set ?l" using walk_root_nodes[of r] assms(2) by auto
  have reps: "reps = fst (fold (replace_node ?R) ?l (Map.empty, []))"
    using assms(1) by (simp add: assign_modules_def)
  show ?thesis
  proof (cases "x \<in> ?R")
    case True
    from fold_replace_reference[OF l True, of "[]" Map.empty] show ?thesis
      by (auto simp: replaced_def reps reference_def Node_create_def)
  next
    case False
    from fold_replace_inline[OF l False, of Map.empty "[]"] show ?thesis
      by (simp add: replaced_def reps)
  qed
qed

lemma compile_node_total:
  assumes "wf_node r" "height r \<le> d"
  shows "\<exists>lines. compile_node d r = Inr lines"
proof -
  obtain reps modules where am: "assign_modules (walk_root r) = (reps, modules)" by force
  have rep: "\<forall>x \<in> subnodes r. replaced reps x"
    using assign_modules_replaced[OF am] by blast
  from iter_lines_total[OF rep assms] obtain root_lines where
    root: "iter_lines d reps r = Inr root_lines" by blast
  let ?g = "\<lambda>m. rbind (Module_iter_lines d reps m) (\<lambda>ls. Inr ([] # ls))"
  have "\<exists>y. ?g m = Inr y" if m: "m \<in> set modules" for m
  proof -
    have "m_node m \<in> set (map m_node modules)" using m by simp
    then have sub: "m_node m \<in> subnodes r"
      using walk_root_nodes[of r] by (auto simp: assign_modules_eq[OF am])
    have "\<exists>ls. iter_lines d reps (m_node m) = Inr ls"
    proof (rule iter_lines_total)
      show "\<forall>x\<in>subnodes (m_node m). replaced reps x"
        using rep sub subnodes_trans by blast
      show "wf_node (m_node m)" using assms(1) sub by (rule wf_subnodes)
      show "height (m_node m) \<le> d" using height_subnodes[OF sub] assms(2) by simp
    qed
    then show ?thesis by (auto simp: Module_iter_lines_def)
  qed
  then have "\<exists>ys. sequence (map ?g modules) = Inr ys"
    by (intro sequence_all_Inr) blast
  then obtain ys where "sequence (map ?g modules) = Inr ys" by blast
  with root am show ?thesis by (simp add: compile_node_def)
qed

subsection \<open>The order of the modules\<close>

lemma module_calls_subnodes:
  "x \<in> set (module_calls R n) \<Longrightarrow> x \<in> subnodes n \<and> x \<noteq> n"
proof (induction n)
  case (PrimitiveNode t)
  then show ?case by simp
next
  case (CompositeNode t ns)
  from CompositeNode.prems obtain c where c: "c \<in> set ns"
    and x: "x \<in> set (if c \<in> R then [c] else module_calls R c)" by auto
  have xc: "x \<in> subnodes c"
    using x CompositeNode.IH[OF c] by (auto split: if_splits)
  have "size x \<le> size c" using xc by (rule subnodes_size)
  moreover have "size c < size (CompositeNode t ns)"
    using c size_child_nodes[of c "CompositeNode t ns"] by simp
  ultimately have "x \<noteq> CompositeNode t ns" by auto
  with xc c show ?case by auto
qed

lemma postorder_before:
  assumes "postorder l" "distinct l" "l = xs @ a # ys" "b \<in> subnodes a" "b \<noteq> a"
  shows "b \<in> set xs"
  using assms unfolding postorder_def by blast

lemma modules_order:
  assumes am: "assign_modules (walk_root r) = (reps, modules)"
    and i: "i < length modules" and j: "j < length modules"
    and call: "m_node (modules ! j)
                 \<in> set (module_calls (reused_nodes (walk_root r)) (m_node (modules ! i)))"
  shows "i < j"
proof -
  define R where "R = reused_nodes (walk_root r)"
  define L where "L = nodes_list (walk_root r)"
  define f where "f = filter (\<lambda>x. x \<in> R) (rev L)"
  define a where "a = f ! i"
  define b where "b = f ! j"
  have L_props: "distinct L" "postorder L"
    using walk_root_nodes[of r] by (simp_all add: L_def)
  have f: "map m_node modules = f"
    using assign_modules_eq[OF am] by (simp add: f_def R_def L_def)
  have len: "length f = length modules" using f by (metis length_map)
  have df: "distinct f" using L_props(1) by (simp add: f_def)
  have a: "m_node (modules ! i) = a" using f i unfolding a_def by (metis nth_map)
  have b: "m_node (modules ! j) = b" using f j unfolding b_def by (metis nth_map)
  from call have sub: "b \<in> subnodes a" "b \<noteq> a"
    using module_calls_subnodes[of b R a] by (simp_all add: a b R_def)
  have af: "a \<in> set f" unfolding a_def by (rule nth_mem) (simp add: i len)
  then have "a \<in> set L" and aR: "a \<in> R" by (simp_all add: f_def)
  then obtain xs ys where L: "L = xs @ a # ys" by (auto simp: in_set_conv_decomp)
  have bxs: "b \<in> set xs"
    using L_props L sub by (intro postorder_before[of L xs a ys]) auto
  define pre where "pre = filter (\<lambda>x. x \<in> R) (rev ys)"
  have fsplit: "f = pre @ a # filter (\<lambda>x. x \<in> R) (rev xs)"
    using aR by (simp add: f_def L pre_def)
  have "f ! length pre = a" by (simp add: fsplit)
  moreover have "length pre < length f" by (simp add: fsplit)
  moreover have "f ! i = a" by (simp add: a_def)
  ultimately have ieq: "i = length pre"
    using df i len by (metis nth_eq_iff_index_eq)
  show ?thesis
  proof (rule ccontr)
    assume "\<not> i < j"
    moreover have "i \<noteq> j" using sub(2) by (auto simp: a_def b_def)
    ultimately have ji: "j < length pre" using ieq by simp
    then have "b = pre ! j" by (simp add: b_def fsplit nth_append)
    moreover have "pre ! j \<in> set pre" using ji by (rule nth_mem)
    ultimately have "b \<in> set pre" by simp
    then have "b \<in> set ys" by (simp add: pre_def)
    with bxs L_props(1) show False by (auto simp: L)
  qed
qed

section \<open>Evaluation on concrete objects\<close>

lemmas compose_eval = Object_compose_def Object_create_def Object_add_def Object_mul_def
  iter_selections_def selectors_def tally_def get_selection_def compute_selection_def
  inverse_groups_of_def combine_def Selection_intersect_def Selection_union_def
  Selection_invert_def Selection_create_def Node_intersect_def Node_union_def Node_minus_def
  Node_compose_def str_call_def

text \<open>
  The theorem at the sum of two cubes. Three combinations of the cross product are mapped
  to the true selector and one to the false selector; the selection stored for the true
  selector is the inverted union of the intersection of the one other group, the selection
  stored for the false selector the union of the intersection of its one group.
\<close>

theorem compose_term_count_witness:
  "\<exists>result.
     Object_compose operator_add
       [Obj (Object_create (NodeSelection (PrimitiveNode ''cube()''))),
        Obj (Object_create (NodeSelection (PrimitiveNode ''cube()'')))] = Inr result
     \<and> set (selectors result) = {true_selector, false_selector}
     \<and> Selection_intersect [InvertedSelection (NodeSelection (PrimitiveNode ''cube()'')),
                             InvertedSelection (NodeSelection (PrimitiveNode ''cube()''))]
         = Inr (InvertedSelection (NodeSelection
                 (CompositeNode ''union()'' [PrimitiveNode ''cube()'', PrimitiveNode ''cube()''])))
     \<and> Selection_union [InvertedSelection (NodeSelection
                 (CompositeNode ''union()'' [PrimitiveNode ''cube()'', PrimitiveNode ''cube()'']))]
         = Inr (InvertedSelection (NodeSelection
                 (CompositeNode ''union()'' [PrimitiveNode ''cube()'', PrimitiveNode ''cube()''])))
     \<and> get_selection result true_selector
         = InvertedSelection (InvertedSelection (NodeSelection
             (CompositeNode ''union()'' [PrimitiveNode ''cube()'', PrimitiveNode ''cube()''])))
     \<and> get_selection result false_selector
         = InvertedSelection (NodeSelection
             (CompositeNode ''union()'' [PrimitiveNode ''cube()'', PrimitiveNode ''cube()'']))"
proof -
  let ?A = "NodeSelection (PrimitiveNode ''cube()'')"
  let ?U = "NodeSelection (CompositeNode ''union()'' [PrimitiveNode ''cube()'', PrimitiveNode ''cube()''])"
  let ?objects = "[Obj (Object_create ?A), Obj (Object_create ?A)]"
  obtain result where r: "Object_compose operator_add ?objects = Inr result"
    by (simp add: compose_eval)
  from compose_term_count[OF r] obtain tuples where
    t: "iter_selections operator_add (map the_Obj ?objects) = Inr tuples" and
    k: "set (selectors result) = set (map fst tuples)" and
    a: "\<forall>s \<in> set (map fst tuples).
        let groups = map snd (filter (\<lambda>t. fst t = s) tuples);
            others = map snd (filter (\<lambda>t. fst t \<noteq> s) tuples);
            inverse_groups = inverse_groups_of (tally tuples) s;
            chosen = (if length groups > length others then inverse_groups else groups)
        in mset inverse_groups = mset others \<and>
           (\<exists>intersections u.
               map Selection_intersect chosen = map Inr intersections
             \<and> Selection_union intersections = Inr u
             \<and> get_selection result s
                 = (if length groups > length others then Selection_invert u else u))"
    by blast
  from t have tuples: "tuples =
     [(true_selector, [?A, ?A]), (true_selector, [?A, InvertedSelection ?A]),
      (true_selector, [InvertedSelection ?A, ?A]),
      (false_selector, [InvertedSelection ?A, InvertedSelection ?A])]"
    by (simp add: iter_selections_def selectors_def Object_create_def get_selection_def
        Selection_invert_def)
  have i: "Selection_intersect [InvertedSelection ?A, InvertedSelection ?A]
        = Inr (InvertedSelection ?U)"
    by (simp add: Selection_intersect_def Selection_invert_def Selection_create_def
        Node_union_def Node_compose_def str_call_def)
  have u: "Selection_union [InvertedSelection ?U] = Inr (InvertedSelection ?U)"
    by (simp add: Selection_union_def Selection_intersect_def Selection_invert_def
        Selection_create_def Node_intersect_def)
  from a have "\<exists>intersections u.
        map Selection_intersect [[InvertedSelection ?A, InvertedSelection ?A]]
          = map Inr intersections
      \<and> Selection_union intersections = Inr u
      \<and> get_selection result true_selector = Selection_invert u"
    by (simp add: tuples tally_def inverse_groups_of_def)
  then obtain u1 where "Selection_union [InvertedSelection ?U] = Inr u1"
    "get_selection result true_selector = Selection_invert u1"
    by (auto simp: i map_eq_Cons_conv)
  with u have true: "get_selection result true_selector = InvertedSelection (InvertedSelection ?U)"
    by (simp add: Selection_invert_def)
  from a have "\<exists>intersections u.
        map Selection_intersect [[InvertedSelection ?A, InvertedSelection ?A]]
          = map Inr intersections
      \<and> Selection_union intersections = Inr u
      \<and> get_selection result false_selector = u"
    by (simp add: tuples tally_def inverse_groups_of_def)
  then obtain u2 where "Selection_union [InvertedSelection ?U] = Inr u2"
    "get_selection result false_selector = u2"
    by (auto simp: i map_eq_Cons_conv)
  with u have false: "get_selection result false_selector = InvertedSelection ?U"
    by simp
  from k have keys: "set (selectors result) = {true_selector, false_selector}"
    by (simp add: tuples)
  from r keys i u true false show ?thesis by blast
qed

section \<open>The inverted void selection\<close>

text \<open>
  Claim C8, as the code has it. The selection \<^verbatim>\<open>Selection.invert(void_selection)\<close>
  still answers the \<^verbatim>\<open>void\<close> query with true, and inverting never changes the answer
  of the \<^verbatim>\<open>void\<close> query. The three readers of the query are \<^verbatim>\<open>Selection.transform\<close>,
  \<^verbatim>\<open>Selection.intersect\<close> and \<^verbatim>\<open>compile_scad\<close>, and two of them tell an inverted
  void selection from a void selection that is not inverted. \<^verbatim>\<open>Selection.intersect\<close>
  ignores an inverted void selection wherever it stands among the selections, as it
  would ignore the whole space, whereas one void selection that is not inverted makes the
  whole intersection void. \<^verbatim>\<open>Selection.transform\<close> returns every void selection
  unchanged, inverted or not. \<^verbatim>\<open>compile_scad\<close> reads \<^verbatim>\<open>inverted\<close> before \<^verbatim>\<open>void\<close>:
  a root selection that is void and inverted is rejected as inverted, not as void, and
  this is what happens to the object created from the void selection.
\<close>

theorem inverted_void_consumers:
  "void (Selection_invert void_selection)
   \<and> (\<forall>x. void (Selection_invert x) = void x)
   \<and> (void iv \<and> inverted iv \<longrightarrow>
        Selection_intersect (xs @ iv # ys) = Selection_intersect (xs @ ys))
   \<and> (void v \<and> \<not> inverted v \<and> v \<in> set L \<longrightarrow> Selection_intersect L = Inr void_selection)
   \<and> (void s \<longrightarrow> Selection_transform t s = Inr s)
   \<and> (root_selection object = Inr s \<and> void s \<and> inverted s \<longrightarrow>
        compile_scad depth object = Inl (Exception ''The top-level node is inverted.''))
   \<and> compile_scad depth (Obj (Object_create void_selection))
       = Inl (Exception ''The top-level node is inverted.'')"
proof -
  have "compile_scad depth (Obj (Object_create void_selection))
       = Inl (Exception ''The top-level node is inverted.'')"
    by (simp add: compile_scad_def root_selection_def compose_eval)
  then show ?thesis
    using intersect_drop intersect_void
    by (auto simp: Selection_transform_def compile_scad_def)
qed

text \<open>
  The theorem at the inverted void selection, intersected with and without a cube,
  transformed by a translation, and as the root selection of the object created from the
  void selection.
\<close>

theorem inverted_void_consumers_witness:
  "void (Selection_invert void_selection) \<and> inverted (Selection_invert void_selection)
   \<and> Selection_intersect ([NodeSelection (PrimitiveNode ''sphere()'')]
        @ Selection_invert void_selection # [NodeSelection (PrimitiveNode ''cube()'')])
       = Selection_intersect ([NodeSelection (PrimitiveNode ''sphere()'')]
        @ [NodeSelection (PrimitiveNode ''cube()'')])
   \<and> void void_selection \<and> \<not> inverted void_selection
   \<and> void_selection \<in> set [NodeSelection (PrimitiveNode ''sphere()''), void_selection]
   \<and> Selection_intersect [NodeSelection (PrimitiveNode ''sphere()''), void_selection]
       = Inr void_selection
   \<and> Selection_transform ''translate([1, 0, 0])'' (Selection_invert void_selection)
       = Inr (Selection_invert void_selection)
   \<and> root_selection (Obj (Object_create void_selection))
       = Inr (Selection_invert void_selection)
   \<and> compile_scad 1 (Obj (Object_create void_selection))
       = Inl (Exception ''The top-level node is inverted.'')"
proof -
  have root: "root_selection (Obj (Object_create void_selection))
       = Inr (Selection_invert void_selection)"
    by (simp add: root_selection_def compose_eval)
  from inverted_void_consumers[where iv = "Selection_invert void_selection"
      and xs = "[NodeSelection (PrimitiveNode ''sphere()'')]"
      and ys = "[NodeSelection (PrimitiveNode ''cube()'')]"
      and v = void_selection
      and L = "[NodeSelection (PrimitiveNode ''sphere()''), void_selection]"
      and s = "Selection_invert void_selection"
      and t = "''translate([1, 0, 0])''"
      and object = "Obj (Object_create void_selection)"
      and depth = 1] root
  show ?thesis by simp
qed

text \<open>
  The part of claim C8 that fails: the inverted void selection reports void, and yet a
  reader of the query treats it as everything. Intersecting it with a cube gives the
  cube, where intersecting the void selection with the cube gives the void selection; and
  \<^verbatim>\<open>compile_scad\<close> reports the root selection of the object created from the void
  selection, which is the inverted void selection, as inverted and not as void.
\<close>

theorem inverted_void_treated_as_everything:
  "void (Selection_invert void_selection)
   \<and> Selection_intersect [Selection_invert void_selection, NodeSelection (PrimitiveNode ''cube()'')]
       = Inr (NodeSelection (PrimitiveNode ''cube()''))
   \<and> Selection_intersect [void_selection, NodeSelection (PrimitiveNode ''cube()'')]
       = Inr void_selection
   \<and> root_selection (Obj (Object_create void_selection))
       = Inr (Selection_invert void_selection)
   \<and> compile_scad 1 (Obj (Object_create void_selection))
       = Inl (Exception ''The top-level node is inverted.'')"
  by code_simp

section \<open>Deduplication\<close>

lemma map_eq_list_all2:
  "(map f xs = map g ys) = list_all2 (\<lambda>x y. f x = g y) xs ys"
proof (induction xs arbitrary: ys)
  case Nil
  show ?case by simp
next
  case (Cons x xs)
  show ?case
  proof (cases ys)
    case Nil
    then show ?thesis by simp
  next
    case (Cons y ys')
    then show ?thesis using Cons.IH[of ys'] by simp
  qed
qed

lemma Node_eq_structure: "Node_eq a b = (structure_of a = structure_of b)"
proof (induction a arbitrary: b)
  case (PrimitiveObj i t)
  show ?case by (cases b) simp_all
next
  case (CompositeObj i t ns)
  show ?case
  proof (cases b)
    case (PrimitiveObj j u)
    then show ?thesis by simp
  next
    case b: (CompositeObj j u ms)
    have "list_all2 Node_eq ns ms
          = list_all2 (\<lambda>x y. structure_of x = structure_of y) ns ms"
      by (rule list.rel_cong[OF refl refl]) (rule CompositeObj.IH)
    then have "list_all2 Node_eq ns ms = (map structure_of ns = map structure_of ms)"
      by (simp only: map_eq_list_all2)
    with b show ?thesis by simp
  qed
qed

lemma Node_hash_structure:
  "structure_of a = structure_of b \<Longrightarrow> Node_hash hs ht a = Node_hash hs ht b"
proof (induction a arbitrary: b)
  case (PrimitiveObj i t)
  then show ?case by (cases b) simp_all
next
  case (CompositeObj i t ns)
  from CompositeObj.prems obtain j u ms where b: "b = CompositeObj j u ms"
    by (cases b) simp_all
  with CompositeObj.prems have tu: "t = u" and m: "map structure_of ns = map structure_of ms"
    by simp_all
  from m have "list_all2 (\<lambda>x y. structure_of x = structure_of y) ns ms"
    by (simp only: map_eq_list_all2)
  then have "list_all2 (\<lambda>x y. Node_hash hs ht x = Node_hash hs ht y) ns ms"
    by (rule list.rel_mono_strong) (rule CompositeObj.IH)
  then have "map (Node_hash hs ht) ns = map (Node_hash hs ht) ms"
    by (simp only: map_eq_list_all2)
  with tu b show ?case by simp
qed

lemma occurrences_subnode:
  assumes "0 < occurrences r x" shows "x \<in> subnodes r"
proof -
  from assms have "x \<in> set (concat (map child_nodes (dag_nodes r)))"
    unfolding occurrences_def by (metis count_list_0_iff less_numeral_extra(3))
  then obtain p where p: "p \<in> subnodes r" "x \<in> set (child_nodes p)"
    by (auto simp: dag_nodes_def set_all_nodes)
  from p(2) have "x \<in> subnodes p" using subnodes_child[of x p] by auto
  with p(1) show ?thesis by (rule subnodes_trans)
qed

lemma filter_key_once:
  "distinct (map f xs) \<Longrightarrow> m \<in> set xs \<Longrightarrow> length (filter (\<lambda>y. f y = f m) xs) = 1"
proof (induction xs)
  case Nil
  then show ?case by simp
next
  case (Cons y xs)
  show ?case
  proof (cases "y = m")
    case True
    with Cons.prems(1) have "f m \<notin> f ` set xs" by simp
    then have "filter (\<lambda>y. f y = f m) xs = []"
      by (auto simp: filter_empty_conv image_iff)
    with True show ?thesis by simp
  next
    case False
    with Cons.prems have m: "m \<in> set xs" and "f y \<noteq> f m" by auto
    with Cons show ?thesis by simp
  qed
qed

lemma module_for_reused:
  assumes am: "assign_modules (walk_root r) = (reps, modules)" and x: "2 \<le> occurrences r x"
  shows "\<exists>m \<in> set modules. m_node m = x \<and> reps x = Some (reference m)"
    and "length (filter (\<lambda>m. m_node m = x) modules) = 1"
proof -
  let ?R = "reused_nodes (walk_root r)" and ?l = "rev (nodes_list (walk_root r))"
  from x have "x \<in> subnodes r" by (intro occurrences_subnode) simp
  then have l: "distinct ?l" "x \<in> set ?l" using walk_root_nodes[of r] by auto
  have R: "x \<in> ?R" using x by (simp add: reused_occurrences)
  have reps: "reps = fst (fold (replace_node ?R) ?l (Map.empty, []))"
    using am by (simp add: assign_modules_def)
  have mods: "modules = numbered 0 (filter (\<lambda>x. x \<in> ?R) ?l)"
    using am by (rule assign_modules_eq)
  from fold_replace_reference[OF l R, of "[]" Map.empty]
  obtain m where m: "m \<in> set modules" "m_node m = x" "reps x = Some (reference m)"
    by (auto simp: reps mods)
  then show "\<exists>m \<in> set modules. m_node m = x \<and> reps x = Some (reference m)" by blast
  have "distinct (map m_node modules)" using l(1) by (simp add: mods)
  from filter_key_once[OF this m(1)] show "length (filter (\<lambda>m. m_node m = x) modules) = 1"
    by (simp add: m(2))
qed

lemma modules_are_reused:
  assumes am: "assign_modules (walk_root r) = (reps, modules)" and m: "m \<in> set modules"
  shows "2 \<le> occurrences r (m_node m)"
proof -
  have "m_node m \<in> set (map m_node modules)" using m by simp
  then have "m_node m \<in> reused_nodes (walk_root r)"
    by (simp add: assign_modules_eq[OF am])
  then show ?thesis by (simp add: reused_occurrences)
qed

lemma inline_for_single:
  assumes am: "assign_modules (walk_root r) = (reps, modules)"
    and x: "x \<in> subnodes r" "occurrences r x < 2"
  shows "reps x = Some x"
proof -
  let ?R = "reused_nodes (walk_root r)" and ?l = "rev (nodes_list (walk_root r))"
  have l: "distinct ?l" "x \<in> set ?l" using walk_root_nodes[of r] x(1) by auto
  have R: "x \<notin> ?R" using x(2) by (simp add: reused_occurrences)
  have reps: "reps = fst (fold (replace_node ?R) ?l (Map.empty, []))"
    using am by (simp add: assign_modules_def)
  from fold_replace_inline[OF l R, of Map.empty "[]"] show ?thesis by (simp add: reps)
qed

lemma reference_lines: "iter_lines depth reps (reference m) = Inr [m_name m @ ''();'']"
  by (simp add: reference_def Node_create_def str_call_def)

lemma list_all2_bodies:
  "list_all2 (\<lambda>m y. \<exists>body. P m body \<and> y = F m body) ms ys \<Longrightarrow>
   \<exists>bodies. list_all2 P ms bodies \<and> ys = map (\<lambda>(m, body). F m body) (zip ms bodies)"
proof (induction ms ys rule: list_all2_induct)
  case Nil
  then show ?case by simp
next
  case (Cons m ms y ys)
  then obtain body bodies where "P m body" "y = F m body" "list_all2 P ms bodies"
    "ys = map (\<lambda>(m, body). F m body) (zip ms bodies)" by blast
  then show ?case by (intro exI[of _ "body # bodies"]) simp
qed

lemma compile_node_output:
  assumes am: "assign_modules (walk_root r) = (reps, modules)"
    and out: "compile_node depth r = Inr lines"
  shows "\<exists>root_lines bodies.
     iter_lines depth reps r = Inr root_lines
     \<and> list_all2 (\<lambda>m body. iter_lines depth reps (m_node m) = Inr body) modules bodies
     \<and> lines = root_lines @ concat (map (\<lambda>(m, body).
                  [] # (''module '' @ m_name m @ ''()'') # indent body) (zip modules bodies))"
proof -
  let ?g = "\<lambda>m. rbind (Module_iter_lines depth reps m) (\<lambda>ls. Inr ([] # ls))"
  from out am obtain root_lines where root: "iter_lines depth reps r = Inr root_lines"
    by (cases "iter_lines depth reps r") (auto simp: compile_node_def)
  with out am obtain ml where ml: "sequence (map ?g modules) = Inr ml"
    and lines: "lines = root_lines @ concat ml"
    by (cases "sequence (map ?g modules)") (auto simp: compile_node_def)
  from ml have "list_all2 (\<lambda>m y. ?g m = Inr y) modules ml" by (rule sequence_map_Inr)
  then have "list_all2 (\<lambda>m y. \<exists>body. iter_lines depth reps (m_node m) = Inr body
        \<and> y = [] # (''module '' @ m_name m @ ''()'') # indent body) modules ml"
    by (rule list_all2_mono) (auto simp: Module_iter_lines_def rbind_def split: sum.splits)
  from list_all2_bodies[OF this] obtain bodies where
    "list_all2 (\<lambda>m body. iter_lines depth reps (m_node m) = Inr body) modules bodies"
    "ml = map (\<lambda>(m, body). [] # (''module '' @ m_name m @ ''()'') # indent body) (zip modules bodies)"
    by blast
  with root lines show ?thesis by blast
qed

lemma digit_inj: "a < 10 \<Longrightarrow> b < 10 \<Longrightarrow> digit a = digit b \<Longrightarrow> a = b"
proof -
  assume a: "a < 10" and b: "b < 10" and eq: "digit a = digit b"
  from eq have "of_char (char_of (48 + a) :: char) = (of_char (char_of (48 + b) :: char) :: nat)"
    by (simp add: digit_def)
  then have "(48 + a) mod 256 = (48 + b) mod 256" by simp
  with a b show "a = b" by simp
qed

lemma str_nat_nonempty: "str_nat n \<noteq> []"
  by (subst str_nat.simps) simp

lemma str_nat_last: "last (str_nat n) = digit (n mod 10)"
  by (subst str_nat.simps) simp

lemma str_nat_butlast: "butlast (str_nat n) = (if n < 10 then [] else str_nat (n div 10))"
  by (subst str_nat.simps) simp

lemma str_nat_inj: "str_nat n = str_nat m \<Longrightarrow> n = m"
proof (induction n arbitrary: m rule: less_induct)
  case (less n)
  from less.prems have l: "digit (n mod 10) = digit (m mod 10)"
    by (metis str_nat_last)
  then have mod: "n mod 10 = m mod 10" by (intro digit_inj) simp_all
  from less.prems have b: "butlast (str_nat n) = butlast (str_nat m)" by simp
  show ?case
  proof (cases "n < 10")
    case True
    with b have "m < 10" using str_nat_nonempty[of "m div 10"]
      by (auto simp: str_nat_butlast split: if_splits)
    with True mod show ?thesis by simp
  next
    case False
    with b have m: "\<not> m < 10" using str_nat_nonempty[of "n div 10"]
      by (auto simp: str_nat_butlast split: if_splits)
    with False b have "str_nat (n div 10) = str_nat (m div 10)"
      by (simp add: str_nat_butlast)
    moreover have "n div 10 < n" using False by simp
    ultimately have "n div 10 = m div 10" by (rule less.IH[rotated])
    with mod show ?thesis by (metis div_mult_mod_eq)
  qed
qed

lemma numbered_names_distinct: "distinct (map m_name (numbered k xs))"
proof -
  have "map m_name (numbered k xs) = map (\<lambda>i. ''node_'' @ str_nat (i + 1)) [k..<k + length xs]"
    by (induction xs arbitrary: k) (simp_all add: upt_rec)
  moreover have "inj (\<lambda>i. ''node_'' @ str_nat (i + 1))"
    by (rule injI) (auto dest: str_nat_inj)
  ultimately show ?thesis by (simp add: distinct_map inj_on_def)
qed

lemma modules_names:
  assumes "assign_modules (walk_root r) = (reps, modules)"
  shows "distinct (map m_name modules)"
    and "i < length modules \<Longrightarrow> m_name (modules ! i) = ''node_'' @ str_nat (i + 1)"
  using assign_modules_eq[OF assms] numbered_names_distinct m_name_numbered[of i _ 0]
  by auto

lemma composite_lines:
  assumes am: "assign_modules (walk_root r) = (reps, modules)"
    and p: "CompositeNode t ns \<in> subnodes r"
    and ls: "iter_lines (Suc d) reps (CompositeNode t ns) = Inr ls"
  shows "\<exists>bodies.
     list_all2 (\<lambda>c body.
        if 2 \<le> occurrences r c
        then (\<exists>m \<in> set modules. m_node m = c \<and> body = [CHR 0x09 # m_name m @ ''();''])
        else (\<exists>l. iter_lines d reps c = Inr l \<and> body = indent l)) ns bodies
     \<and> ls = (if length ns = 1 then t # concat bodies
             else [t @ '' {''] @ concat bodies @ [''}''])"
proof -
  let ?f = "\<lambda>i. case reps i of None \<Rightarrow> Inl KeyError
      | Some r \<Rightarrow> rbind (iter_lines d reps r) (\<lambda>ls. Inr (indent ls))"
  let ?P = "\<lambda>c body.
        if 2 \<le> occurrences r c
        then (\<exists>m \<in> set modules. m_node m = c \<and> body = [CHR 0x09 # m_name m @ ''();''])
        else (\<exists>l. iter_lines d reps c = Inr l \<and> body = indent l)"
  have each: "?P c body" if c: "c \<in> set ns" and f: "?f c = Inr body" for c body
  proof -
    have "c \<in> subnodes (CompositeNode t ns)"
      using c subnodes_self[of c] by (simp only: subnodes.simps) blast
    with p have csub: "c \<in> subnodes r" by (rule subnodes_trans)
    show ?thesis
    proof (cases "2 \<le> occurrences r c")
      case True
      from module_for_reused(1)[OF am True] obtain m where
        m: "m \<in> set modules" "m_node m = c" "reps c = Some (reference m)" by blast
      with f have "body = [CHR 0x09 # m_name m @ ''();'']"
        by (simp add: reference_lines indent_def)
      with m True show ?thesis by auto
    next
      case False
      then have "reps c = Some c" using inline_for_single[OF am csub] by simp
      with f obtain l where "iter_lines d reps c = Inr l" "body = indent l"
        by (cases "iter_lines d reps c") auto
      with False show ?thesis by auto
    qed
  qed
  from ls obtain first rest where ns: "ns = first # rest" by (cases ns) auto
  show ?thesis
  proof (cases "rest = []")
    case True
    with ls ns obtain body where b: "?f first = Inr body" "ls = t # body"
      by (cases "?f first") auto
    from each[of first body] ns b(1) have "?P first body" by simp
    then have "list_all2 ?P ns [body]" using ns True by simp
    with b(2) ns True show ?thesis by (intro exI[of _ "[body]"]) simp
  next
    case False
    with ls ns obtain bodies where b: "sequence (map ?f ns) = Inr bodies"
      "ls = [t @ '' {''] @ concat bodies @ [''}'']"
      by (cases "sequence (map ?f ns)") auto
    from b(1) have "list_all2 (\<lambda>c body. ?f c = Inr body) ns bodies" by (rule sequence_map_Inr)
    then have "list_all2 ?P ns bodies"
      by (rule list.rel_mono_strong) (use each in blast)
    with b(2) ns False show ?thesis by (intro exI[of _ bodies]) simp
  qed
qed




section \<open>Modules are called before they are declared\<close>

lemma sequence_map_member:
  "sequence (map f xs) = Inr ys \<Longrightarrow> x \<in> set xs \<Longrightarrow> \<exists>y \<in> set ys. f x = Inr y"
proof (induction xs arbitrary: ys)
  case Nil
  then show ?case by simp
next
  case (Cons z zs)
  from Cons.prems(1) obtain y ys' where y: "f z = Inr y" "sequence (map f zs) = Inr ys'"
    "ys = y # ys'"
    by (auto simp: rbind_def split: sum.splits)
  show ?case
  proof (cases "x = z")
    case True
    with y show ?thesis by simp
  next
    case False
    with Cons.prems(2) have "x \<in> set zs" by simp
    from Cons.IH[OF y(2) this] y(3) show ?thesis by auto
  qed
qed

lemma calls_rendered:
  assumes "\<forall>c \<in> subnodes n. c \<in> R \<longrightarrow> (\<exists>t. reps c = Some (PrimitiveNode t))"
    and "\<forall>c \<in> subnodes n. c \<notin> R \<longrightarrow> reps c = Some c"
    and "iter_lines d reps n = Inr ls"
    and "x \<in> set (module_calls R n)"
  shows "\<exists>k t. reps x = Some (PrimitiveNode t) \<and> replicate k (CHR 0x09) @ t @ '';'' \<in> set ls"
  using assms
proof (induction n arbitrary: d ls)
  case (PrimitiveNode t)
  then show ?case by simp
next
  case (CompositeNode t ns)
  from CompositeNode.prems(3) obtain d' where d: "d = Suc d'" by (cases d) auto
  let ?f = "\<lambda>i. case reps i of None \<Rightarrow> Inl KeyError
      | Some r \<Rightarrow> rbind (iter_lines d' reps r) (\<lambda>ls. Inr (indent ls))"
  from CompositeNode.prems(4) obtain c where c: "c \<in> set ns"
    and x: "x \<in> set (if c \<in> R then [c] else module_calls R c)" by auto
  have body: "\<exists>body. ?f c = Inr body \<and> set body \<subseteq> set ls"
  proof (cases ns)
    case Nil
    with c show ?thesis by simp
  next
    case (Cons first rest)
    show ?thesis
    proof (cases "rest = []")
      case True
      with Cons c have "c = first" by simp
      with CompositeNode.prems(3) d Cons True show ?thesis
        by (cases "?f first") auto
    next
      case False
      with CompositeNode.prems(3) d Cons obtain bodies where
        b: "sequence (map ?f ns) = Inr bodies" "ls = [t @ '' {''] @ concat bodies @ [''}'']"
        by (cases "sequence (map ?f ns)") auto
      from sequence_map_member[OF b(1) c] obtain y where "y \<in> set bodies" "?f c = Inr y"
        by blast
      with b(2) show ?thesis by auto
    qed
  qed
  then obtain body where body: "?f c = Inr body" "set body \<subseteq> set ls" by blast
  have csub: "c \<in> subnodes (CompositeNode t ns)"
    using c subnodes_self[of c] by (simp only: subnodes.simps) blast
  show ?case
  proof (cases "c \<in> R")
    case True
    with x have xc: "x = c" by simp
    from True csub CompositeNode.prems(1) obtain u where u: "reps c = Some (PrimitiveNode u)"
      by blast
    with body(1) have "body = [CHR 0x09 # u @ '';'']" by (simp add: indent_def)
    with body(2) have "replicate 1 (CHR 0x09) @ u @ '';'' \<in> set ls" by simp
    with u xc show ?thesis by blast
  next
    case False
    with x have xm: "x \<in> set (module_calls R c)" by simp
    from False csub CompositeNode.prems(2) have rc: "reps c = Some c" by blast
    with body(1) obtain l' where l': "iter_lines d' reps c = Inr l'" "body = indent l'"
      by (cases "iter_lines d' reps c") auto
    have "\<exists>k u. reps x = Some (PrimitiveNode u) \<and> replicate k (CHR 0x09) @ u @ '';'' \<in> set l'"
    proof (rule CompositeNode.IH[OF c _ _ l'(1) xm])
      show "\<forall>c'\<in>subnodes c. c' \<in> R \<longrightarrow> (\<exists>t. reps c' = Some (PrimitiveNode t))"
        using CompositeNode.prems(1) c by auto
      show "\<forall>c'\<in>subnodes c. c' \<notin> R \<longrightarrow> reps c' = Some c'"
        using CompositeNode.prems(2) c by auto
    qed
    then obtain k u where ku: "reps x = Some (PrimitiveNode u)"
      "replicate k (CHR 0x09) @ u @ '';'' \<in> set l'" by blast
    from ku(2) have "replicate (Suc k) (CHR 0x09) @ u @ '';'' \<in> set body"
      by (auto simp: l'(2) indent_def)
    with body(2) ku(1) show ?thesis by blast
  qed
qed

lemma assign_modules_reps:
  assumes am: "assign_modules (walk_root r) = (reps, modules)" and x: "x \<in> subnodes r"
  shows "x \<in> reused_nodes (walk_root r) \<longrightarrow>
           (\<exists>m \<in> set modules. m_node m = x \<and> reps x = Some (reference m))"
    and "x \<notin> reused_nodes (walk_root r) \<longrightarrow> reps x = Some x"
  using module_for_reused(1)[OF am, of x] inline_for_single[OF am x]
  by (auto simp: reused_occurrences not_le)

lemma call_line_in_declaration:
  assumes am: "assign_modules (walk_root r) = (reps, modules)"
    and i: "i < length modules" and j: "j < length modules"
    and call: "m_node (modules ! j)
                 \<in> set (module_calls (reused_nodes (walk_root r)) (m_node (modules ! i)))"
    and body: "iter_lines depth reps (m_node (modules ! i)) = Inr body"
  shows "\<exists>k. replicate k (CHR 0x09) @ m_name (modules ! j) @ ''();'' \<in> set body"
proof -
  define R where "R = reused_nodes (walk_root r)"
  have mods: "map m_node modules = filter (\<lambda>x. x \<in> R) (rev (nodes_list (walk_root r)))"
    using assign_modules_eq[OF am] by (simp add: R_def)
  have dist: "distinct (map m_node modules)"
    unfolding mods using walk_root_nodes[of r] by simp
  have "m_node (modules ! i) \<in> set (map m_node modules)" using i by simp
  then have ni: "m_node (modules ! i) \<in> subnodes r"
    unfolding mods using walk_root_nodes[of r] by simp
  have sub: "\<And>c. c \<in> subnodes (m_node (modules ! i)) \<Longrightarrow> c \<in> subnodes r"
    using ni subnodes_trans by blast
  have 1: "\<forall>c \<in> subnodes (m_node (modules ! i)). c \<in> R \<longrightarrow> (\<exists>t. reps c = Some (PrimitiveNode t))"
    using assign_modules_reps(1)[OF am sub]
    by (fastforce simp: R_def reference_def Node_create_def)
  have 2: "\<forall>c \<in> subnodes (m_node (modules ! i)). c \<notin> R \<longrightarrow> reps c = Some c"
    using assign_modules_reps(2)[OF am sub] by (simp add: R_def)
  from calls_rendered[OF 1 2 body call[folded R_def]] obtain k t where
    kt: "reps (m_node (modules ! j)) = Some (PrimitiveNode t)"
      "replicate k (CHR 0x09) @ t @ '';'' \<in> set body" by blast
  have nj: "m_node (modules ! j) \<in> set (map m_node modules)" using j by simp
  then have "m_node (modules ! j) \<in> subnodes r" "m_node (modules ! j) \<in> R"
    unfolding mods using walk_root_nodes[of r] by simp_all
  with assign_modules_reps(1)[OF am, of "m_node (modules ! j)"] obtain m where
    m: "m \<in> set modules" "m_node m = m_node (modules ! j)"
       "reps (m_node (modules ! j)) = Some (reference m)"
    by (auto simp: R_def)
  from m(1) obtain j' where j': "j' < length modules" "modules ! j' = m"
    by (auto simp: in_set_conv_nth)
  with m(2) dist j have "j' = j"
    by (metis length_map nth_eq_iff_index_eq nth_map)
  with j' have "m = modules ! j" by simp
  with m(3) kt(1) have "t = m_name (modules ! j) @ ''()''"
    by (simp add: reference_def Node_create_def str_call_def)
  with kt(2) show ?thesis by auto
qed




section \<open>A shape and its complement, a shape and itself\<close>

lemma mul_complement:
  assumes "\<not> void A" "\<not> inverted A" "node_of A = Inr n"
  shows "Object_mul (Object_create A) (Obj (Object_create (Selection_invert A))) =
    Inr (Object [(true_selector, InvertedSelection (InvertedSelection (NodeSelection
                    (CompositeNode ''difference()'' [n, n])))),
                 (false_selector, InvertedSelection (InvertedSelection (InvertedSelection
                    (NodeSelection (CompositeNode ''difference()'' [n, n])))))])"
  by (simp add: compose_eval assms)

lemma add_self:
  assumes "\<not> void A" "\<not> inverted A" "node_of A = Inr n"
  shows "Object_add (Object_create A) (Obj (Object_create A)) =
    Inr (Object [(true_selector, InvertedSelection (InvertedSelection (NodeSelection
                    (CompositeNode ''union()'' [n, n])))),
                 (false_selector, InvertedSelection (NodeSelection
                    (CompositeNode ''union()'' [n, n])))])"
  by (simp add: compose_eval assms)

lemma add_self_inverted:
  assumes "\<not> void A" "inverted A" "node_of A = Inr n"
  shows "Object_add (Object_create A) (Obj (Object_create A)) =
    Inr (Object [(true_selector, InvertedSelection (InvertedSelection (InvertedSelection
                    (NodeSelection (CompositeNode ''intersection()'' [n, n]))))),
                 (false_selector, InvertedSelection (InvertedSelection (NodeSelection
                    (CompositeNode ''intersection()'' [n, n]))))])"
  by (simp add: compose_eval assms)

lemma compile_two_keys:
  assumes "\<not> void T" "\<not> inverted T" "node_of T = Inr n"
  shows "compile_scad d (Obj (Object [(true_selector, T), (false_selector, F)])) = compile_node d n"
proof (cases "void F")
  case True
  then show ?thesis
    by (simp add: compile_scad_def root_selection_def compose_eval assms)
next
  case False
  then obtain m where "node_of F = Inr m" using node_of_nonvoid by blast
  with False show ?thesis
    by (simp add: compile_scad_def root_selection_def compose_eval assms)
qed

lemma compile_two_keys_inverted:
  assumes "\<not> void T" "inverted T"
  shows "compile_scad d (Obj (Object [(true_selector, T), (false_selector, F)]))
     = Inl (Exception ''The top-level node is inverted.'')"
proof -
  obtain n where n: "node_of T = Inr n" using assms(1) node_of_nonvoid by blast
  show ?thesis
  proof (cases "void F")
    case True
    then show ?thesis
      by (simp add: compile_scad_def root_selection_def compose_eval assms n)
  next
    case False
    then obtain m where "node_of F = Inr m" using node_of_nonvoid by blast
    with False show ?thesis
      by (simp add: compile_scad_def root_selection_def compose_eval assms n)
  qed
qed

text \<open>
  Claim C1, as the code has it. For a selection \<open>A\<close> that is neither void nor inverted,
  with node \<open>n\<close>, the object \<^verbatim>\<open>create(A) * create(invert(A))\<close> maps the true selector to
  a selection that is not void: the doubly inverted selection of the node
  \<^verbatim>\<open>difference()\<close> of \<open>n\<close> and \<open>n\<close>. \<^verbatim>\<open>compile_scad\<close> does not raise on it; it renders
  that node, and produces output when \<open>n\<close> is well formed and the depth suffices.
\<close>

theorem complement_product_compiles:
  assumes "\<not> void A" "\<not> inverted A" "node_of A = Inr n"
  shows "\<exists>ob. Object_mul (Object_create A) (Obj (Object_create (Selection_invert A))) = Inr ob
     \<and> get_selection ob true_selector
         = InvertedSelection (InvertedSelection (NodeSelection
             (CompositeNode ''difference()'' [n, n])))
     \<and> \<not> void (get_selection ob true_selector)
     \<and> compile_scad d (Obj ob) = compile_node d (CompositeNode ''difference()'' [n, n])
     \<and> (wf_node n \<and> height n < d \<longrightarrow> (\<exists>lines. compile_scad d (Obj ob) = Inr lines))"
proof -
  let ?D = "CompositeNode ''difference()'' [n, n]"
  let ?T = "InvertedSelection (InvertedSelection (NodeSelection ?D))"
  let ?F = "InvertedSelection (InvertedSelection (InvertedSelection (NodeSelection ?D)))"
  let ?ob = "Object [(true_selector, ?T), (false_selector, ?F)]"
  have 1: "Object_mul (Object_create A) (Obj (Object_create (Selection_invert A))) = Inr ?ob"
    using assms by (rule mul_complement)
  have 2: "get_selection ?ob true_selector = ?T" by (simp add: get_selection_def)
  have 3: "compile_scad d (Obj ?ob) = compile_node d ?D"
    by (rule compile_two_keys) simp_all
  have 4: "\<exists>lines. compile_scad d (Obj ?ob) = Inr lines" if "wf_node n" "height n < d"
    unfolding 3 using that by (intro compile_node_total) simp_all
  from 1 2 3 4 show ?thesis by (intro exI[of _ ?ob]) simp
qed

text \<open>The theorem at the selection of a cube.\<close>

theorem complement_product_compiles_witness:
  "\<not> void (NodeSelection (PrimitiveNode ''cube()''))
   \<and> \<not> inverted (NodeSelection (PrimitiveNode ''cube()''))
   \<and> node_of (NodeSelection (PrimitiveNode ''cube()'')) = Inr (PrimitiveNode ''cube()'')
   \<and> wf_node (PrimitiveNode ''cube()'') \<and> height (PrimitiveNode ''cube()'') < 1
   \<and> (\<exists>ob lines.
        Object_mul (Object_create (NodeSelection (PrimitiveNode ''cube()'')))
          (Obj (Object_create (Selection_invert (NodeSelection (PrimitiveNode ''cube()''))))) = Inr ob
        \<and> \<not> void (get_selection ob true_selector)
        \<and> compile_scad 1 (Obj ob) = Inr lines)"
  using complement_product_compiles [of "NodeSelection (PrimitiveNode ''cube()'')"
      "PrimitiveNode ''cube()''" 1]
  by auto

text \<open>
  The claim C1 as stated fails at the cube: the selection of the true selector is not void,
  and \<^verbatim>\<open>compile_scad\<close> returns the lines of the output.
\<close>

theorem complement_product_not_void_root:
  "Object_mul (Object_create (NodeSelection (PrimitiveNode ''cube()'')))
     (Obj (Object_create (Selection_invert (NodeSelection (PrimitiveNode ''cube()'')))))
   = Inr (Object
       [(true_selector, InvertedSelection (InvertedSelection (NodeSelection
           (CompositeNode ''difference()'' [PrimitiveNode ''cube()'', PrimitiveNode ''cube()''])))),
        (false_selector, InvertedSelection (InvertedSelection (InvertedSelection (NodeSelection
           (CompositeNode ''difference()'' [PrimitiveNode ''cube()'', PrimitiveNode ''cube()''])))))])
   \<and> \<not> void (InvertedSelection (InvertedSelection (NodeSelection
           (CompositeNode ''difference()'' [PrimitiveNode ''cube()'', PrimitiveNode ''cube()'']))))
   \<and> compile_scad 1 (Obj (Object
       [(true_selector, InvertedSelection (InvertedSelection (NodeSelection
           (CompositeNode ''difference()'' [PrimitiveNode ''cube()'', PrimitiveNode ''cube()''])))),
        (false_selector, InvertedSelection (InvertedSelection (InvertedSelection (NodeSelection
           (CompositeNode ''difference()'' [PrimitiveNode ''cube()'', PrimitiveNode ''cube()''])))))]))
     = Inr [''difference() {'', CHR 0x09 # ''node_1();'', CHR 0x09 # ''node_1();'', ''}'',
            '''', ''module node_1()'', CHR 0x09 # ''cube();'']"
  by code_simp




end
